theory Spec2Isabelle
  imports Complex_Main "HOL-Library.Char_ord" "HOL-Library.List_Lexorder" "HOL-Library.Sublist"
begin

section \<open>Dining hall traffic simulator: the model\<close>

text \<open>
  A shallow embedding of \<^verbatim>\<open>src/main.py\<close>. Python ints are modelled by \<open>int\<close>, the values of
  Python floats by reals, exceptions by \<open>Inl\<close> of a sum type. The global \<^verbatim>\<open>random\<close>
  generator is an explicit argument: an infinite tape of draws that every call of
  \<^verbatim>\<open>random.random\<close>, \<^verbatim>\<open>random.gauss\<close> and \<^verbatim>\<open>random.choices\<close> consumes in program order.
  The float arithmetic of the spherical geometry is an explicit argument as well (see
  below).
\<close>

subsection \<open>Exceptions\<close>

datatype py_error = KeyError | IndexError | ValueError | TypeError | ZeroDivisionError

subsection \<open>Constants\<close>

definition DAY_START_TIME :: real where
  "DAY_START_TIME = 7 * 60"

definition DAY_END_TIME :: real where
  "DAY_END_TIME = 22 * 60"

definition CONVERSION_RATE :: real where
  "CONVERSION_RATE = 2 / 5"

definition DINNER_CONVERSION_RATE :: real where
  "DINNER_CONVERSION_RATE = 1 / 2"

definition BOUNDING_BOX :: "real list" where
  "BOUNDING_BOX = [-117.71845, -117.70245, 34.09391, 34.10705]"

text \<open>
  \<^verbatim>\<open>DINING_HALLS\<close> is a dict literal with six string keys. The keys are modelled by an
  enumeration, the dict by a lookup function and by the list of its keys in insertion
  order (the order every \<^verbatim>\<open>for dining_hall in DINING_HALLS\<close> loop follows).
\<close>

datatype hall = Hoch_Shanahan | Malott | Collins | McConnell | Frary | Frank

record timing =
  breakfast :: "real \<times> real"
  lunch :: "real \<times> real"
  dinner :: "real \<times> real"

record hall_info =
  location :: "real \<times> real"
  college :: string
  timing :: timing

fun DINING_HALLS :: "hall \<Rightarrow> hall_info" where
  "DINING_HALLS Hoch_Shanahan = \<lparr>location = (34.10574, -117.70980), college = ''HarveyMudd'',
     timing = \<lparr>breakfast = (7, 9), lunch = (11.75, 13), dinner = (17, 19)\<rparr>\<rparr>"
| "DINING_HALLS Malott = \<lparr>location = (34.10284, -117.71064), college = ''Scripps'',
     timing = \<lparr>breakfast = (7.5, 10), lunch = (11, 14), dinner = (17, 19)\<rparr>\<rparr>"
| "DINING_HALLS Collins = \<lparr>location = (34.10160, -117.70899), college = ''ClaremontMckenna'',
     timing = \<lparr>breakfast = (7.5, 10.5), lunch = (11, 14), dinner = (16.5, 19.5)\<rparr>\<rparr>"
| "DINING_HALLS McConnell = \<lparr>location = (34.10291, -117.70562), college = ''Pitzer'',
     timing = \<lparr>breakfast = (7.5, 10), lunch = (11, 13.5), dinner = (17, 19.5)\<rparr>\<rparr>"
| "DINING_HALLS Frary = \<lparr>location = (34.10040, -117.71073), college = ''Pomona'',
     timing = \<lparr>breakfast = (7.5, 10), lunch = (11, 13.5), dinner = (17, 19.5)\<rparr>\<rparr>"
| "DINING_HALLS Frank = \<lparr>location = (34.09614, -117.71145), college = ''Pitzer'',
     timing = \<lparr>breakfast = (7.5, 9.5), lunch = (10.5, 13.5), dinner = (17, 19.5)\<rparr>\<rparr>"

definition DINING_HALLS_keys :: "hall list" where
  "DINING_HALLS_keys = [Hoch_Shanahan, Malott, Collins, McConnell, Frary, Frank]"

subsection \<open>Floating point\<close>

text \<open>
  Python floats are IEEE doubles. In \<^verbatim>\<open>Person.get_distance\<close> and
  \<^verbatim>\<open>Person.move_towards_fast\<close> rounding decides whether \<^verbatim>\<open>math.acos\<close> and \<^verbatim>\<open>math.asin\<close>
  raise and whether a distance is zero, so there every float operation goes through a
  parameter \<open>fl\<close>: the rounding of an arithmetic result to a double and the platform's
  \<^verbatim>\<open>sin\<close>, \<^verbatim>\<open>cos\<close>, \<^verbatim>\<open>acos\<close>, \<^verbatim>\<open>asin\<close>, \<^verbatim>\<open>atan2\<close> and \<^verbatim>\<open>pi\<close>. Nothing is assumed of \<open>fl\<close>: what
  is proved for every \<open>fl\<close> holds of the machine's arithmetic in particular. Elsewhere
  (the clock, the waits, the rates) a float operation is the operation on reals. Infinities
  and NaN are not modelled.
\<close>

record float_ops =
  rnd :: "real \<Rightarrow> real"
  libm_sin :: "real \<Rightarrow> real"
  libm_cos :: "real \<Rightarrow> real"
  libm_acos :: "real \<Rightarrow> real"
  libm_asin :: "real \<Rightarrow> real"
  libm_atan2 :: "real \<Rightarrow> real \<Rightarrow> real"
  libm_pi :: real

definition fadd :: "float_ops \<Rightarrow> real \<Rightarrow> real \<Rightarrow> real" where
  "fadd fl x y = rnd fl (x + y)"

definition fsub :: "float_ops \<Rightarrow> real \<Rightarrow> real \<Rightarrow> real" where
  "fsub fl x y = rnd fl (x - y)"

definition fmul :: "float_ops \<Rightarrow> real \<Rightarrow> real \<Rightarrow> real" where
  "fmul fl x y = rnd fl (x * y)"

definition fdiv :: "float_ops \<Rightarrow> real \<Rightarrow> real \<Rightarrow> real" where
  "fdiv fl x y = rnd fl (x / y)"

text \<open>\<^verbatim>\<open>math.radians\<close> and \<^verbatim>\<open>math.degrees\<close> multiply by a constant computed from
  \<^verbatim>\<open>pi\<close>; \<^verbatim>\<open>math.acos\<close> and \<^verbatim>\<open>math.asin\<close> raise \<^verbatim>\<open>ValueError\<close> outside \<open>[-1, 1]\<close>; the float
  operator \<^verbatim>\<open>%\<close> raises \<^verbatim>\<open>ZeroDivisionError\<close> on a zero divisor, and its result has the
  sign of the divisor.\<close>

definition math_radians :: "float_ops \<Rightarrow> real \<Rightarrow> real" where
  "math_radians fl x = fmul fl x (fdiv fl (libm_pi fl) 180)"

definition math_degrees :: "float_ops \<Rightarrow> real \<Rightarrow> real" where
  "math_degrees fl x = fmul fl x (fdiv fl 180 (libm_pi fl))"

definition math_acos :: "float_ops \<Rightarrow> real \<Rightarrow> py_error + real" where
  "math_acos fl x = (if x < - 1 \<or> 1 < x then Inl ValueError else Inr (libm_acos fl x))"

definition math_asin :: "float_ops \<Rightarrow> real \<Rightarrow> py_error + real" where
  "math_asin fl x = (if x < - 1 \<or> 1 < x then Inl ValueError else Inr (libm_asin fl x))"

definition float_mod :: "float_ops \<Rightarrow> real \<Rightarrow> real \<Rightarrow> py_error + real" where
  "float_mod fl x y =
     (if y = 0 then Inl ZeroDivisionError else Inr (rnd fl (x - y * of_int \<lfloor>x / y\<rfloor>)))"

text \<open>
  The arithmetic that does not round, with the mathematical functions: the model is
  evaluated with it at concrete inputs. \<open>atan2\<close> is the angle of the point \<open>(x, y)\<close> (signed
  zeros are not modelled).
\<close>

definition atan2 :: "real \<Rightarrow> real \<Rightarrow> real" where
  "atan2 y x =
     (if 0 < x then arctan (y / x)
      else if x < 0 then (if 0 \<le> y then arctan (y / x) + pi else arctan (y / x) - pi)
      else if 0 < y then pi / 2
      else if y < 0 then - (pi / 2)
      else 0)"

definition exact_floats :: float_ops where
  "exact_floats = \<lparr>rnd = (\<lambda>x. x), libm_sin = sin, libm_cos = cos, libm_acos = arccos,
                    libm_asin = arcsin, libm_atan2 = atan2, libm_pi = pi\<rparr>"

definition radians :: "real \<Rightarrow> real" where
  "radians x = x * pi / 180"

definition degrees :: "real \<Rightarrow> real" where
  "degrees x = x * 180 / pi"

subsection \<open>Library functions the program calls\<close>

text \<open>\<^verbatim>\<open>int(x)\<close> on a float truncates toward zero.\<close>

definition int_of_float :: "real \<Rightarrow> int" where
  "int_of_float x = (if 0 \<le> x then \<lfloor>x\<rfloor> else \<lceil>x\<rceil>)"

text \<open>
  The generator. A primitive draw pops the head of the tape. \<^verbatim>\<open>random.random()\<close> is one
  draw \<open>u\<close>; \<^verbatim>\<open>random.gauss(mu, sigma)\<close> returns \<open>mu + z * sigma\<close> for one standard normal
  draw \<open>z\<close>, as CPython computes it.
\<close>

type_synonym rng = "nat \<Rightarrow> real"

definition next_draw :: "rng \<Rightarrow> real \<times> rng" where
  "next_draw g = (g 0, \<lambda>n. g (Suc n))"

definition random_random :: "rng \<Rightarrow> real \<times> rng" where
  "random_random g = next_draw g"

definition random_gauss :: "real \<Rightarrow> real \<Rightarrow> rng \<Rightarrow> real \<times> rng" where
  "random_gauss mu sigma g = (case next_draw g of (z, g') \<Rightarrow> (mu + z * sigma, g'))"

text \<open>\<^verbatim>\<open>bisect.bisect_right(a, x, lo, hi)\<close>.\<close>

function bisect_right :: "real list \<Rightarrow> real \<Rightarrow> nat \<Rightarrow> nat \<Rightarrow> nat" where
  "bisect_right a x lo hi =
     (if lo < hi
      then (if x < a ! ((lo + hi) div 2)
            then bisect_right a x lo ((lo + hi) div 2)
            else bisect_right a x ((lo + hi) div 2 + 1) hi)
      else lo)"
  by pat_completeness auto
termination
  by (relation "measure (\<lambda>(a, x, lo, hi). hi - lo)") auto

declare bisect_right.simps [simp del]

text \<open>\<^verbatim>\<open>itertools.accumulate\<close>: the running sums.\<close>

fun accumulate_from :: "real \<Rightarrow> real list \<Rightarrow> real list" where
  "accumulate_from acc [] = []"
| "accumulate_from acc (w # ws) = (acc + w) # accumulate_from (acc + w) ws"

definition accumulate :: "real list \<Rightarrow> real list" where
  "accumulate ws = accumulate_from 0 ws"

text \<open>
  \<^verbatim>\<open>random.choices(population, weights=weights, k=1)[0]\<close> as CPython 3.9 and later
  computes it: the cumulative weights, \<^verbatim>\<open>ValueError\<close> when their number is not the
  population's or their total is not positive, then one \<^verbatim>\<open>random()\<close> draw scaled by the
  total and located by bisection among the first \<open>n - 1\<close> cumulative weights.
\<close>

definition random_choices :: "'a list \<Rightarrow> real list \<Rightarrow> rng \<Rightarrow> py_error + ('a \<times> rng)" where
  "random_choices population weights g =
     (let n = length population; cum_weights = accumulate weights in
      if length cum_weights \<noteq> n then Inl ValueError
      else if cum_weights = [] then Inl IndexError
      else if last cum_weights \<le> 0 then Inl ValueError
      else (case random_random g of (u, g') \<Rightarrow>
              Inr (population ! bisect_right cum_weights (u * last cum_weights) 0 (n - 1), g')))"

subsection \<open>Person\<close>

record person =
  loc :: "real \<times> real"
  speed :: real
  destination :: "hall option"

definition Person :: "real \<times> real \<Rightarrow> real \<Rightarrow> person" where
  "Person l s = \<lparr>loc = l, speed = s, destination = None\<rparr>"

definition get_distance :: "float_ops \<Rightarrow> person \<Rightarrow> real \<times> real \<Rightarrow> py_error + real" where
  "get_distance fl self l =
     (let loc1 = (math_radians fl (fst l), math_radians fl (snd l));
          loc2 = (math_radians fl (fst (loc self)), math_radians fl (snd (loc self)))
      in case math_acos fl
                (fadd fl (fmul fl (libm_sin fl (fst loc1)) (libm_sin fl (fst loc2)))
                         (fmul fl (fmul fl (libm_cos fl (fst loc1)) (libm_cos fl (fst loc2)))
                                  (libm_cos fl (fsub fl (snd loc1) (snd loc2))))) of
           Inl e \<Rightarrow> Inl e
         | Inr distance \<Rightarrow> Inr (fmul fl (fmul fl distance 6371) (10 ^ 3)))"

definition in_dining_hall :: "float_ops \<Rightarrow> person \<Rightarrow> hall \<Rightarrow> py_error + bool" where
  "in_dining_hall fl self dining_hall =
     (case get_distance fl self (location (DINING_HALLS dining_hall)) of
        Inl e \<Rightarrow> Inl e
      | Inr distance \<Rightarrow> Inr (distance \<le> 100))"

text \<open>The list comprehension that computes the weights stops at the first exception.\<close>

fun distances :: "float_ops \<Rightarrow> person \<Rightarrow> hall list \<Rightarrow> py_error + real list" where
  "distances fl self [] = Inr []"
| "distances fl self (dining_hall # rest) =
     (case get_distance fl self (location (DINING_HALLS dining_hall)) of
        Inl e \<Rightarrow> Inl e
      | Inr d \<Rightarrow> (case distances fl self rest of Inl e \<Rightarrow> Inl e | Inr ds \<Rightarrow> Inr (d # ds)))"

definition choose_dest ::
  "float_ops \<Rightarrow> person \<Rightarrow> hall list \<Rightarrow> rng \<Rightarrow> py_error + (person \<times> rng)" where
  "choose_dest fl self choices g =
     (if length choices = 0 then Inr (self, g)
      else (case distances fl self choices of
              Inl e \<Rightarrow> Inl e
            | Inr weights \<Rightarrow>
                (case random_choices choices weights g of
                   Inl e \<Rightarrow> Inl e
                 | Inr (d, g') \<Rightarrow> Inr (self\<lparr>destination := Some d\<rparr>, g'))))"

text \<open>\<^verbatim>\<open>DINING_HALLS[self.destination]\<close> raises \<^verbatim>\<open>KeyError\<close> when the destination is \<^verbatim>\<open>None\<close>.\<close>

definition move_towards_fast :: "float_ops \<Rightarrow> person \<Rightarrow> real \<Rightarrow> py_error + person" where
  "move_towards_fast fl self delta_meters =
     (case destination self of
        None \<Rightarrow> Inl KeyError
      | Some d \<Rightarrow>
         (let R = 6371 * 10 ^ 3;
              current_lat = math_radians fl (fst (loc self));
              current_lon = math_radians fl (snd (loc self));
              destination_lat = math_radians fl (fst (location (DINING_HALLS d)));
              destination_lon = math_radians fl (snd (location (DINING_HALLS d)));
              delta = fdiv fl delta_meters R;
              dlon = fsub fl destination_lon current_lon;
              y = fmul fl (libm_sin fl dlon) (libm_cos fl destination_lat);
              x = fsub fl (fmul fl (libm_cos fl current_lat) (libm_sin fl destination_lat))
                          (fmul fl (fmul fl (libm_sin fl current_lat) (libm_cos fl destination_lat))
                                   (libm_cos fl dlon));
              bearing = libm_atan2 fl y x
          in case math_asin fl
                    (fadd fl (fmul fl (libm_sin fl current_lat) (libm_cos fl delta))
                             (fmul fl (fmul fl (libm_cos fl current_lat) (libm_sin fl delta))
                                      (libm_cos fl bearing))) of
               Inl e \<Rightarrow> Inl e
             | Inr lat \<Rightarrow>
                (let lon = fadd fl current_lon
                             (libm_atan2 fl
                                (fmul fl (fmul fl (libm_sin fl bearing) (libm_sin fl delta))
                                         (libm_cos fl current_lat))
                                (fsub fl (libm_cos fl delta)
                                         (fmul fl (libm_sin fl current_lat) (libm_sin fl lat))))
                 in case float_mod fl (fadd fl lon (fmul fl 3 (libm_pi fl)))
                                      (fmul fl 2 (libm_pi fl)) of
                      Inl e \<Rightarrow> Inl e
                    | Inr m \<Rightarrow>
                        Inr (self\<lparr>loc := (math_degrees fl lat,
                                           math_degrees fl (fsub fl m (libm_pi fl)))\<rparr>))))"

subsection \<open>Strings: \<^verbatim>\<open>str.split\<close>, \<^verbatim>\<open>int\<close>, \<^verbatim>\<open>float\<close>\<close>

fun split_on :: "char \<Rightarrow> string \<Rightarrow> string list" where
  "split_on c [] = [[]]"
| "split_on c (x # xs) =
     (if x = c then [] # split_on c xs
      else (case split_on c xs of [] \<Rightarrow> [[x]] | w # ws \<Rightarrow> (x # w) # ws))"

text \<open>
  The whitespace that \<^verbatim>\<open>int\<close> and \<^verbatim>\<open>float\<close> strip from a string: the six ASCII characters of C's
  \<^verbatim>\<open>isspace\<close> and, of the code points up to 255, the two other Unicode spaces U+0085 and
  U+00A0 (which CPython first turns into blanks). U+001C to U+001F are whitespace for
  \<^verbatim>\<open>str.strip\<close> but not here.
\<close>

definition is_space :: "char \<Rightarrow> bool" where
  "is_space c = (c \<in> set [CHR '' '', CHR 0x09, CHR 0x0A, CHR 0x0B, CHR 0x0C, CHR 0x0D,
                           CHR 0x85, CHR 0xA0])"

definition strip :: "string \<Rightarrow> string" where
  "strip s = rev (dropWhile is_space (rev (dropWhile is_space s)))"

definition digit :: "char \<Rightarrow> int option" where
  "digit c = (if CHR ''0'' \<le> c \<and> c \<le> CHR ''9'' then Some (of_char c - 48) else None)"

text \<open>A digit part \<open>digit (["_"] digit)*\<close>: its value and its number of digits.\<close>

fun more_digits :: "int \<times> nat \<Rightarrow> string \<Rightarrow> (int \<times> nat) option" where
  "more_digits acc [] = Some acc"
| "more_digits (v, k) [c] =
     (case digit c of None \<Rightarrow> None | Some d \<Rightarrow> Some (10 * v + d, k + 1))"
| "more_digits (v, k) (c # c' # cs) =
     (if c = CHR ''_''
      then (case digit c' of None \<Rightarrow> None | Some d \<Rightarrow> more_digits (10 * v + d, k + 1) cs)
      else (case digit c of None \<Rightarrow> None | Some d \<Rightarrow> more_digits (10 * v + d, k + 1) (c' # cs)))"

definition digitpart :: "string \<Rightarrow> (int \<times> nat) option" where
  "digitpart s =
     (case s of [] \<Rightarrow> None
      | c # cs \<Rightarrow> (case digit c of None \<Rightarrow> None | Some d \<Rightarrow> more_digits (d, 1) cs))"

definition split_sign :: "string \<Rightarrow> int \<times> string" where
  "split_sign s =
     (case s of [] \<Rightarrow> (1, [])
      | c # cs \<Rightarrow> if c = CHR ''-'' then (- 1, cs) else if c = CHR ''+'' then (1, cs) else (1, s))"

text \<open>\<^verbatim>\<open>int(s)\<close> for a string: surrounding whitespace, a sign, decimal digits.\<close>

definition py_int :: "string \<Rightarrow> py_error + int" where
  "py_int s =
     (case split_sign (strip s) of (sg, body) \<Rightarrow>
        (case digitpart body of None \<Rightarrow> Inl ValueError | Some (v, k) \<Rightarrow> Inr (sg * v)))"

text \<open>
  \<^verbatim>\<open>float(s)\<close> for a string, \<open>None\<close> when it raises \<^verbatim>\<open>ValueError\<close>: surrounding whitespace,
  a sign, a decimal mantissa and an optional exponent. The literals \<^verbatim>\<open>inf\<close> and \<^verbatim>\<open>nan\<close>
  have no real value and are read as \<open>None\<close>; the program skips a classroom in either
  reading (such a coordinate is out of bounds).
\<close>

definition mantissa :: "string \<Rightarrow> real option" where
  "mantissa s =
     (case split_on CHR ''.'' s of
        [i] \<Rightarrow> map_option (\<lambda>(v, k). of_int v) (digitpart i)
      | [i, f] \<Rightarrow>
          (if f = [] then map_option (\<lambda>(v, k). of_int v) (digitpart i)
           else (case digitpart f of None \<Rightarrow> None
                 | Some (fv, fk) \<Rightarrow>
                     (if i = [] then Some (of_int fv / 10 ^ fk)
                      else map_option (\<lambda>(v, k). of_int v + of_int fv / 10 ^ fk) (digitpart i))))
      | _ \<Rightarrow> None)"

definition exponent :: "string \<Rightarrow> int option" where
  "exponent s = (case split_sign s of (sg, body) \<Rightarrow>
                   map_option (\<lambda>(v, k). sg * v) (digitpart body))"

definition scale10 :: "real \<Rightarrow> int \<Rightarrow> real" where
  "scale10 m e = (if 0 \<le> e then m * 10 ^ nat e else m / 10 ^ nat (- e))"

definition py_float :: "string \<Rightarrow> real option" where
  "py_float s =
     (case split_sign (strip s) of (sg, body) \<Rightarrow>
        (case split_on CHR ''e'' (map (\<lambda>c. if c = CHR ''E'' then CHR ''e'' else c) body) of
           [m] \<Rightarrow> map_option (\<lambda>x. of_int sg * x) (mantissa m)
         | [m, e] \<Rightarrow>
             (case (mantissa m, exponent e) of
                (Some x, Some k) \<Rightarrow> Some (of_int sg * scale10 x k)
              | _ \<Rightarrow> None)
         | _ \<Rightarrow> None))"

subsection \<open>Top-level helpers\<close>

definition convert_str_to_loc :: "string list \<Rightarrow> py_error + (real \<times> real)" where
  "convert_str_to_loc l =
     (case l of
        [] \<Rightarrow> Inl IndexError
      | a # rest \<Rightarrow>
          (case py_float a of
             None \<Rightarrow> Inr (0, 0)
           | Some lat \<Rightarrow>
               (case rest of
                  [] \<Rightarrow> Inl IndexError
                | b # _ \<Rightarrow> (case py_float b of None \<Rightarrow> Inr (0, 0) | Some lon \<Rightarrow> Inr (lat, lon)))))"

definition in_bounds :: "real \<times> real \<Rightarrow> bool" where
  "in_bounds l = (snd l \<ge> BOUNDING_BOX ! 0 \<and> snd l \<le> BOUNDING_BOX ! 1
                  \<and> fst l \<ge> BOUNDING_BOX ! 2 \<and> fst l \<le> BOUNDING_BOX ! 3)"

definition time_to_minutes :: "string \<Rightarrow> py_error + int" where
  "time_to_minutes time =
     (case split_on CHR '':'' time of
        [] \<Rightarrow> Inl IndexError
      | h # rest \<Rightarrow>
          (case py_int h of
             Inl e \<Rightarrow> Inl e
           | Inr hours \<Rightarrow>
               (case rest of
                  [] \<Rightarrow> Inl IndexError
                | m # _ \<Rightarrow> (case py_int m of Inl e \<Rightarrow> Inl e | Inr mins \<Rightarrow> Inr (hours * 60 + mins)))))"

definition is_open :: "real \<Rightarrow> hall_info \<Rightarrow> bool" where
  "is_open current_time dining_hall =
     (let current_time = current_time / 60 in
      if current_time \<ge> fst (breakfast (timing dining_hall))
         \<and> current_time \<le> snd (breakfast (timing dining_hall)) then True
      else if current_time \<ge> fst (lunch (timing dining_hall))
         \<and> current_time \<le> snd (lunch (timing dining_hall)) then True
      else if current_time \<ge> fst (dinner (timing dining_hall))
         \<and> current_time \<le> snd (dinner (timing dining_hall)) then True
      else False)"

subsection \<open>The schedule index built by \<^verbatim>\<open>main\<close>\<close>

record class_location =
  school :: string
  building :: string
  room :: string

record class_timing =
  timing_days :: "string list"
  start_time :: string
  end_time :: string
  timing_location :: class_location

record course =
  seats_taken :: int
  course_timing :: "class_timing list"

text \<open>The entries \<^verbatim>\<open>{"course": course, "timing": timing}\<close> of \<^verbatim>\<open>schedule_by_classroom\<close>.\<close>

record course_at =
  the_course :: course
  the_timing :: class_timing

text \<open>The entries of \<^verbatim>\<open>end_times\<close>.\<close>

record end_event =
  event_timing :: class_timing
  location_string :: string
  people :: int

text \<open>
  A dict in insertion order is an association list. \<open>dict_modify d k dflt f\<close> is
  \<^verbatim>\<open>if k not in d: d[k] = dflt\<close> followed by an in-place change \<open>f\<close> of \<^verbatim>\<open>d[k]\<close>.
\<close>

fun dict_modify :: "('k \<times> 'v) list \<Rightarrow> 'k \<Rightarrow> 'v \<Rightarrow> ('v \<Rightarrow> 'v) \<Rightarrow> ('k \<times> 'v) list" where
  "dict_modify [] k dflt f = [(k, f dflt)]"
| "dict_modify ((k', v) # d) k dflt f =
     (if k' = k then (k', f v) # d else (k', v) # dict_modify d k dflt f)"

definition dict_append :: "('k \<times> 'v list) list \<Rightarrow> 'k \<Rightarrow> 'v \<Rightarrow> ('k \<times> 'v list) list" where
  "dict_append d k x = dict_modify d k [] (\<lambda>xs. xs @ [x])"

text \<open>A \<^verbatim>\<open>for\<close> loop whose body may raise.\<close>

fun for_each :: "('a \<Rightarrow> 's \<Rightarrow> py_error + 's) \<Rightarrow> 'a list \<Rightarrow> 's \<Rightarrow> py_error + 's" where
  "for_each body [] s = Inr s"
| "for_each body (x # xs) s = (case body x s of Inl e \<Rightarrow> Inl e | Inr s' \<Rightarrow> for_each body xs s')"

definition schedule_by_classroom :: "course list \<Rightarrow> (string \<times> course_at list) list" where
  "schedule_by_classroom courses =
     fold (\<lambda>c d. fold (\<lambda>t d. dict_append d (building (timing_location t))
                                  \<lparr>the_course = c, the_timing = t\<rparr>)
                       (course_timing c) d)
          courses []"

definition schedule_by_day ::
  "(string \<times> course_at list) list \<Rightarrow> (string \<times> (string \<times> course_at list) list) list" where
  "schedule_by_day by_classroom =
     fold (\<lambda>(classroom, cs) d.
             fold (\<lambda>c d. fold (\<lambda>day d. dict_modify d day [] (\<lambda>rooms. dict_append rooms classroom c))
                               (timing_days (the_timing c)) d)
                  cs d)
          by_classroom
          [(''Monday'', []), (''Tuesday'', []), (''Wednesday'', []), (''Thursday'', []),
           (''Friday'', [])]"

definition sort_by_end_time ::
  "(string \<times> (string \<times> course_at list) list) list \<Rightarrow> (string \<times> (string \<times> course_at list) list) list" where
  "sort_by_end_time by_day =
     map (\<lambda>(day, rooms). (day, map (\<lambda>(classroom, cs). (classroom, sort_key (\<lambda>x. end_time (the_timing x)) cs)) rooms))
         by_day"

definition add_end_time :: "course_at \<Rightarrow> (int \<times> end_event list) list \<Rightarrow> py_error + (int \<times> end_event list) list" where
  "add_end_time c et =
     (case time_to_minutes (end_time (the_timing c)) of
        Inl e \<Rightarrow> Inl e
      | Inr t \<Rightarrow>
          Inr (dict_append et t
                 \<lparr>event_timing = the_timing c,
                  location_string = school (timing_location (the_timing c)) @ ''-''
                                    @ building (timing_location (the_timing c)),
                  people = seats_taken (the_course c)\<rparr>))"

definition build_end_times :: "course list \<Rightarrow> py_error + (int \<times> end_event list) list" where
  "build_end_times courses =
     for_each (\<lambda>(day, rooms). for_each (\<lambda>(classroom, cs). for_each add_end_time cs) rooms)
       (sort_by_end_time (schedule_by_day (schedule_by_classroom courses))) []"

subsection \<open>SimState\<close>

record args =
  days :: string
  time_interval :: int
  eating_time :: int
  line_time :: int
  walk_speed :: real

record hall_people =
  in_line :: "real list"
  eating :: "real list"

text \<open>One snapshot of the log: the minute, the outside count, and for each hall in
  catalog order its in-line and eating counts.\<close>

record log_entry =
  minute :: real
  outside :: nat
  hall_counts :: "(hall \<times> nat \<times> nat) list"

text \<open>
  \<^verbatim>\<open>people_in_dining_halls\<close> is created with every key of \<^verbatim>\<open>DINING_HALLS\<close> and is only ever
  indexed by those keys: a total function on \<open>hall\<close>. \<^verbatim>\<open>current_day\<close> is an index or \<^verbatim>\<open>None\<close>.
\<close>

record sim_state =
  end_times :: "(int \<times> end_event list) list"
  location_data :: "string \<rightharpoonup> string list"
  args :: args
  current_minute :: real
  current_day :: "nat option"
  outside_people :: "person list"
  people_in_dining_halls :: "hall \<Rightarrow> hall_people"
  sim_log :: "log_entry list list"

definition empty_halls :: "(hall \<Rightarrow> hall_people) \<Rightarrow> hall \<Rightarrow> hall_people" where
  "empty_halls m = fold (\<lambda>dining_hall m. m(dining_hall := \<lparr>in_line = [], eating = []\<rparr>))
                        DINING_HALLS_keys m"

definition SimState :: "(int \<times> end_event list) list \<Rightarrow> (string \<rightharpoonup> string list) \<Rightarrow> args \<Rightarrow> sim_state" where
  "SimState et ld a =
     \<lparr>end_times = et, location_data = ld, args = a,
      current_minute = DAY_START_TIME - 1, current_day = Some 0,
      outside_people = [],
      people_in_dining_halls = empty_halls (\<lambda>h. \<lparr>in_line = [], eating = []\<rparr>),
      sim_log = []\<rparr>"

text \<open>\<^verbatim>\<open>self.current_day += 1\<close> raises \<^verbatim>\<open>TypeError\<close> once the day is \<^verbatim>\<open>None\<close>.\<close>

definition get_next_day :: "sim_state \<Rightarrow> py_error + sim_state" where
  "get_next_day self =
     (case current_day self of
        None \<Rightarrow> Inl TypeError
      | Some d \<Rightarrow>
          Inr (self\<lparr>current_day := (if d + 1 \<ge> length (days (args self)) then None else Some (d + 1)),
                    outside_people := [],
                    people_in_dining_halls := empty_halls (people_in_dining_halls self)\<rparr>))"

subsubsection \<open>Step 1: people spawn outside classrooms\<close>

definition conversion_rate_at :: "real \<Rightarrow> real" where
  "conversion_rate_at cm =
     (if cm \<ge> 17 * 60 then DINNER_CONVERSION_RATE else CONVERSION_RATE)"

text \<open>The loop \<^verbatim>\<open>for i in range(num_spawned)\<close>, by the number of iterations left: the new
  person is appended, and \<^verbatim>\<open>self.outside_people[-1].choose_dest\<close> then changes that last
  element in place.\<close>

fun spawn_people ::
  "float_ops \<Rightarrow> nat \<Rightarrow> real \<times> real \<Rightarrow> args \<Rightarrow> hall list \<Rightarrow> person list \<Rightarrow> rng
     \<Rightarrow> py_error + (person list \<times> rng)" where
  "spawn_people fl 0 l a open_dining_halls ps g = Inr (ps, g)"
| "spawn_people fl (Suc n) l a open_dining_halls ps g =
     (case random_gauss (walk_speed a) 1 g of (x, g1) \<Rightarrow>
        if length open_dining_halls = 0
        then spawn_people fl n l a open_dining_halls (ps @ [Person l (max x 0.2)]) g1
        else (case choose_dest fl (last (ps @ [Person l (max x 0.2)])) open_dining_halls g1 of
                Inl e \<Rightarrow> Inl e
              | Inr (p, g2) \<Rightarrow>
                  spawn_people fl n l a open_dining_halls
                    ((ps @ [Person l (max x 0.2)])[length (ps @ [Person l (max x 0.2)]) - 1 := p])
                    g2))"

definition spawn_course ::
  "float_ops \<Rightarrow> (string \<rightharpoonup> string list) \<Rightarrow> args \<Rightarrow> real \<Rightarrow> hall list \<Rightarrow> end_event
     \<Rightarrow> person list \<times> rng \<Rightarrow> py_error + (person list \<times> rng)" where
  "spawn_course fl ld a cm open_dining_halls course st =
     (case ld (location_string course) of
        None \<Rightarrow> Inl KeyError
      | Some strs \<Rightarrow>
          (case convert_str_to_loc strs of
             Inl e \<Rightarrow> Inl e
           | Inr l \<Rightarrow>
               if l = (0, 0) \<or> in_bounds l = False then Inr st
               else spawn_people fl (nat (int_of_float (of_int (people course) * conversion_rate_at cm)))
                      l a open_dining_halls (fst st) (snd st)))"

text \<open>\<^verbatim>\<open>self.current_minute in self.end_times\<close>: a float equals an int key when it is that
  integer.\<close>

definition end_times_at :: "(int \<times> end_event list) list \<Rightarrow> real \<Rightarrow> end_event list option" where
  "end_times_at et cm = (if cm = of_int \<lfloor>cm\<rfloor> then map_of et \<lfloor>cm\<rfloor> else None)"

definition spawn_step ::
  "float_ops \<Rightarrow> (int \<times> end_event list) list \<Rightarrow> (string \<rightharpoonup> string list) \<Rightarrow> args \<Rightarrow> real \<Rightarrow> hall list
     \<Rightarrow> person list \<Rightarrow> rng \<Rightarrow> py_error + (person list \<times> rng)" where
  "spawn_step fl et ld a cm open_dining_halls ps g =
     (case end_times_at et cm of
        None \<Rightarrow> Inr (ps, g)
      | Some bucket \<Rightarrow> for_each (spawn_course fl ld a cm open_dining_halls) bucket (ps, g))"

subsubsection \<open>Step 2: people move towards dining halls\<close>

text \<open>
  \<^verbatim>\<open>for person in self.outside_people\<close> with the list changed under the iterator: the
  iterator holds an index \<open>i\<close>, stops when \<open>i\<close> reaches the current length, and advances
  by one after each element whatever the body did. Every element of the list is a distinct
  object, so \<^verbatim>\<open>remove(person)\<close> deletes position \<open>i\<close>.
\<close>

definition remove_at :: "nat \<Rightarrow> 'a list \<Rightarrow> 'a list" where
  "remove_at i xs = take i xs @ drop (Suc i) xs"

function move_people ::
  "float_ops \<Rightarrow> args \<Rightarrow> hall list \<Rightarrow> nat \<Rightarrow> person list \<Rightarrow> rng
     \<Rightarrow> py_error + (person list \<times> rng)" where
  "move_people fl a open_dining_halls i ps g =
     (if length ps \<le> i then Inr (ps, g)
      else if destination (ps ! i) = None
      then (if length open_dining_halls = 0
            then (if fst (random_random g) < CONVERSION_RATE
                  then move_people fl a open_dining_halls (Suc i) (remove_at i ps) (snd (random_random g))
                  else move_people fl a open_dining_halls (Suc i) ps (snd (random_random g)))
            else (case choose_dest fl (ps ! i) open_dining_halls g of
                    Inl e \<Rightarrow> Inl e
                  | Inr (p, g1) \<Rightarrow>
                      (case move_towards_fast fl p (of_int (time_interval a) * speed p) of
                         Inl e \<Rightarrow> Inl e
                       | Inr p' \<Rightarrow> move_people fl a open_dining_halls (Suc i) (ps[i := p']) g1)))
      else (case move_towards_fast fl (ps ! i) (of_int (time_interval a) * speed (ps ! i)) of
              Inl e \<Rightarrow> Inl e
            | Inr p' \<Rightarrow> move_people fl a open_dining_halls (Suc i) (ps[i := p']) g))"
  by pat_completeness auto
termination
  by (relation "measure (\<lambda>(fl, a, hs, i, ps, g). length ps - i)") (auto simp: remove_at_def)

declare move_people.simps [simp del]

subsubsection \<open>Step 3: people enter dining halls and enter line\<close>

text \<open>\<^verbatim>\<open>list.pop(i)\<close>: a negative index counts from the end; out of range raises.\<close>

definition list_pop :: "'a list \<Rightarrow> int \<Rightarrow> py_error + 'a list" where
  "list_pop xs i =
     (let j = (if i < 0 then i + int (length xs) else i) in
      if 0 \<le> j \<and> j < int (length xs) then Inr (remove_at (nat j) xs) else Inl IndexError)"

text \<open>The loops \<^verbatim>\<open>for index in to_remove: xs.pop(index - removed); removed += 1\<close>.\<close>

fun pop_indices :: "'a list \<Rightarrow> nat list \<Rightarrow> nat \<Rightarrow> py_error + 'a list" where
  "pop_indices xs [] removed = Inr xs"
| "pop_indices xs (index # rest) removed =
     (case list_pop xs (int index - int removed) of
        Inl e \<Rightarrow> Inl e
      | Inr xs' \<Rightarrow> pop_indices xs' rest (removed + 1))"

text \<open>The inner loop over \<^verbatim>\<open>DINING_HALLS\<close> for one person, up to its \<^verbatim>\<open>break\<close>. The state
  is the halls, the generator and \<^verbatim>\<open>to_remove\<close>.\<close>

fun enter_person ::
  "float_ops \<Rightarrow> args \<Rightarrow> nat \<Rightarrow> person \<Rightarrow> hall list \<Rightarrow> (hall \<Rightarrow> hall_people) \<times> rng \<times> nat list
     \<Rightarrow> py_error + ((hall \<Rightarrow> hall_people) \<times> rng \<times> nat list)" where
  "enter_person fl a index p [] st = Inr st"
| "enter_person fl a index p (dining_hall # rest) (halls, g, to_remove) =
     (case in_dining_hall fl p dining_hall of
        Inl e \<Rightarrow> Inl e
      | Inr b \<Rightarrow>
          if b
          then (case random_gauss (of_nat (length (in_line (halls dining_hall))) * of_int (line_time a)) 10 g of
                  (x, g1) \<Rightarrow>
                    Inr (halls(dining_hall := (halls dining_hall)
                           \<lparr>in_line := in_line (halls dining_hall) @ [min (max x 0 / 60) 60]\<rparr>),
                         g1, to_remove @ [index]))
          else enter_person fl a index p rest (halls, g, to_remove))"

text \<open>The loop over \<^verbatim>\<open>enumerate(self.outside_people)\<close>, from position \<open>index\<close> on.\<close>

fun enter_loop ::
  "float_ops \<Rightarrow> args \<Rightarrow> nat \<Rightarrow> person list \<Rightarrow> (hall \<Rightarrow> hall_people) \<times> rng \<times> nat list
     \<Rightarrow> py_error + ((hall \<Rightarrow> hall_people) \<times> rng \<times> nat list)" where
  "enter_loop fl a index [] st = Inr st"
| "enter_loop fl a index (p # ps) st =
     (case enter_person fl a index p DINING_HALLS_keys st of
        Inl e \<Rightarrow> Inl e
      | Inr st' \<Rightarrow> enter_loop fl a (Suc index) ps st')"

definition enter_dining_halls ::
  "float_ops \<Rightarrow> args \<Rightarrow> person list \<Rightarrow> (hall \<Rightarrow> hall_people) \<Rightarrow> rng
     \<Rightarrow> py_error + (person list \<times> (hall \<Rightarrow> hall_people) \<times> rng)" where
  "enter_dining_halls fl a ps halls g =
     (case enter_loop fl a 0 ps (halls, g, []) of
        Inl e \<Rightarrow> Inl e
      | Inr (halls', g', to_remove) \<Rightarrow>
          (case pop_indices ps to_remove 0 of
             Inl e \<Rightarrow> Inl e
           | Inr outside' \<Rightarrow> Inr (outside', halls', g')))"

subsubsection \<open>Steps 4 and 5: from line to eating, from eating to outside\<close>

text \<open>The loops over \<^verbatim>\<open>enumerate(queue)\<close> that decrement every entry in place and collect
  the indices of the entries at or below zero.\<close>

function decrement_from :: "real \<Rightarrow> nat \<Rightarrow> real list \<Rightarrow> nat list \<Rightarrow> real list \<times> nat list" where
  "decrement_from delta_minutes index q to_remove =
     (if index < length q
      then decrement_from delta_minutes (Suc index) (q[index := q ! index - delta_minutes])
             (if (q[index := q ! index - delta_minutes]) ! index \<le> 0
              then to_remove @ [index] else to_remove)
      else (q, to_remove))"
  by pat_completeness auto
termination
  by (relation "measure (\<lambda>(d, index, q, r). length q - index)") auto

declare decrement_from.simps [simp del]

text \<open>Moving people from the line to eating: each pop is followed by one fresh eating time.\<close>

fun line_to_eating ::
  "args \<Rightarrow> nat list \<Rightarrow> nat \<Rightarrow> real list \<Rightarrow> real list \<Rightarrow> rng
     \<Rightarrow> py_error + (real list \<times> real list \<times> rng)" where
  "line_to_eating a [] total_removed line eat g = Inr (line, eat, g)"
| "line_to_eating a (index # rest) total_removed line eat g =
     (case list_pop line (int index - int total_removed) of
        Inl e \<Rightarrow> Inl e
      | Inr line' \<Rightarrow>
          (case random_gauss (of_int (eating_time a)) 2000 g of
             (x, g1) \<Rightarrow> line_to_eating a rest (total_removed + 1) line' (eat @ [max x 0 / 60]) g1))"

definition serve_hall :: "args \<Rightarrow> real \<Rightarrow> hall_people \<Rightarrow> rng \<Rightarrow> py_error + (hall_people \<times> rng)" where
  "serve_hall a delta_minutes hp g =
     (case decrement_from delta_minutes 0 (in_line hp) [] of
        (line1, to_remove) \<Rightarrow>
          (case line_to_eating a to_remove 0 line1 (eating hp) g of
             Inl e \<Rightarrow> Inl e
           | Inr (line2, eat1, g1) \<Rightarrow>
               (case decrement_from delta_minutes 0 eat1 [] of
                  (eat2, to_remove') \<Rightarrow>
                    (case pop_indices eat2 to_remove' 0 of
                       Inl e \<Rightarrow> Inl e
                     | Inr eat3 \<Rightarrow> Inr (\<lparr>in_line = line2, eating = eat3\<rparr>, g1)))))"

definition serve_halls ::
  "args \<Rightarrow> real \<Rightarrow> hall list \<Rightarrow> (hall \<Rightarrow> hall_people) \<times> rng
     \<Rightarrow> py_error + ((hall \<Rightarrow> hall_people) \<times> rng)" where
  "serve_halls a delta_minutes hs st =
     for_each (\<lambda>dining_hall (halls, g).
                 case serve_hall a delta_minutes (halls dining_hall) g of
                   Inl e \<Rightarrow> Inl e
                 | Inr (hp, g') \<Rightarrow> Inr (halls(dining_hall := hp), g'))
              hs st"

subsubsection \<open>Logging, and the whole tick\<close>

definition snapshot :: "real \<Rightarrow> person list \<Rightarrow> (hall \<Rightarrow> hall_people) \<Rightarrow> log_entry" where
  "snapshot cm outside_p halls =
     \<lparr>minute = cm, outside = length outside_p,
      hall_counts = map (\<lambda>dining_hall. (dining_hall, length (in_line (halls dining_hall)),
                                         length (eating (halls dining_hall))))
                        DINING_HALLS_keys\<rparr>"

text \<open>\<^verbatim>\<open>self.log[self.current_day].append(to_append)\<close>, after the conditional
  \<^verbatim>\<open>self.log.append([])\<close>.\<close>

definition log_append :: "log_entry list list \<Rightarrow> nat \<Rightarrow> log_entry \<Rightarrow> py_error + log_entry list list" where
  "log_append lg d e =
     (let lg1 = (if d = length lg then lg @ [[]] else lg) in
      if d < length lg1 then Inr (lg1[d := lg1 ! d @ [e]]) else Inl IndexError)"

text \<open>Everything of \<^verbatim>\<open>iterate\<close> after the clock has advanced (the open set, steps 1 to 5,
  the log).\<close>

definition tick_steps :: "float_ops \<Rightarrow> sim_state \<Rightarrow> real \<Rightarrow> rng \<Rightarrow> py_error + (sim_state \<times> rng)" where
  "tick_steps fl self delta_minutes g =
     (let open_dining_halls =
            filter (\<lambda>dining_hall. is_open (current_minute self) (DINING_HALLS dining_hall))
                   DINING_HALLS_keys
      in case spawn_step fl (end_times self) (location_data self) (args self) (current_minute self)
                open_dining_halls (outside_people self) g of
           Inl e \<Rightarrow> Inl e
         | Inr (outside1, g1) \<Rightarrow>
        (case move_people fl (args self) open_dining_halls 0 outside1 g1 of
           Inl e \<Rightarrow> Inl e
         | Inr (outside2, g2) \<Rightarrow>
        (case enter_dining_halls fl (args self) outside2 (people_in_dining_halls self) g2 of
           Inl e \<Rightarrow> Inl e
         | Inr (outside3, halls3, g3) \<Rightarrow>
        (case serve_halls (args self) delta_minutes DINING_HALLS_keys (halls3, g3) of
           Inl e \<Rightarrow> Inl e
         | Inr (halls4, g4) \<Rightarrow>
        (case current_day self of
           None \<Rightarrow> Inl TypeError
         | Some d \<Rightarrow>
            (case log_append (sim_log self) d (snapshot (current_minute self) outside3 halls4) of
               Inl e \<Rightarrow> Inl e
             | Inr lg \<Rightarrow>
                 Inr (self\<lparr>outside_people := outside3, people_in_dining_halls := halls4,
                           sim_log := lg\<rparr>, g4)))))))"

text \<open>\<^verbatim>\<open>iterate\<close> returns \<^verbatim>\<open>None\<close> (here \<open>None\<close>) or \<^verbatim>\<open>True\<close> (here \<open>Some True\<close>).\<close>

definition iterate :: "float_ops \<Rightarrow> sim_state \<Rightarrow> rng \<Rightarrow> py_error + (bool option \<times> sim_state \<times> rng)" where
  "iterate fl self g =
     (let old_time = current_minute self;
          cm = old_time + of_int (time_interval (args self)) / 60;
          delta_minutes = cm - old_time
      in if cm \<ge> DAY_END_TIME
         then (case get_next_day (self\<lparr>current_minute := DAY_START_TIME\<rparr>) of
                 Inl e \<Rightarrow> Inl e
               | Inr self1 \<Rightarrow>
                   if current_day self1 = None then Inr (None, self1, g)
                   else (case tick_steps fl self1 delta_minutes g of
                           Inl e \<Rightarrow> Inl e
                         | Inr (self2, g') \<Rightarrow> Inr (Some True, self2, g')))
         else (case tick_steps fl (self\<lparr>current_minute := cm\<rparr>) delta_minutes g of
                 Inl e \<Rightarrow> Inl e
               | Inr (self2, g') \<Rightarrow> Inr (Some True, self2, g')))"

subsection \<open>The driver loop of \<^verbatim>\<open>main\<close>\<close>

text \<open>
  \<^verbatim>\<open>while True: if state.iterate() == None: break\<close> may run forever (a tick interval of
  zero never ends a day), so the loop takes fuel: \<open>Inr None\<close> is running out of it, \<open>Inr
  (Some lg)\<close> is the log handed to \<^verbatim>\<open>save_to_file\<close>.
\<close>

fun run :: "float_ops \<Rightarrow> nat \<Rightarrow> sim_state \<Rightarrow> rng \<Rightarrow> py_error + log_entry list list option" where
  "run fl 0 state g = Inr None"
| "run fl (Suc fuel) state g =
     (case iterate fl state g of
        Inl e \<Rightarrow> Inl e
      | Inr (None, state', g') \<Rightarrow> Inr (Some (sim_log state'))
      | Inr (Some b, state', g') \<Rightarrow> run fl fuel state' g')"

definition simulate ::
  "float_ops \<Rightarrow> nat \<Rightarrow> course list \<Rightarrow> (string \<rightharpoonup> string list) \<Rightarrow> args \<Rightarrow> rng
     \<Rightarrow> py_error + log_entry list list option" where
  "simulate fl fuel courses ld a seed =
     (case build_end_times courses of
        Inl e \<Rightarrow> Inl e
      | Inr et \<Rightarrow> run fl fuel (SimState et ld a) seed)"

text \<open>The states the driver loop passes through, with the number of ticks made.\<close>

inductive reachable ::
  "float_ops \<Rightarrow> (int \<times> end_event list) list \<Rightarrow> (string \<rightharpoonup> string list) \<Rightarrow> args \<Rightarrow> nat
     \<Rightarrow> sim_state \<Rightarrow> rng \<Rightarrow> bool" where
  initial: "reachable fl et ld a 0 (SimState et ld a) seed"
| tick: "reachable fl et ld a n s g \<Longrightarrow> iterate fl s g = Inr (Some True, s', g')
           \<Longrightarrow> reachable fl et ld a (Suc n) s' g'"

subsection \<open>Functions used to state the properties\<close>

text \<open>The positions, counted from \<open>n\<close>, of the elements of a list that satisfy \<open>P\<close>.\<close>

fun marked :: "('a \<Rightarrow> bool) \<Rightarrow> nat \<Rightarrow> 'a list \<Rightarrow> nat list" where
  "marked P n [] = []"
| "marked P n (x # xs) = (if P x then n # marked P (Suc n) xs else marked P (Suc n) xs)"

text \<open>The eating times sampled from the first \<open>m\<close> draws of a tape.\<close>

definition fresh_eating :: "args \<Rightarrow> nat \<Rightarrow> rng \<Rightarrow> real list" where
  "fresh_eating a m g = map (\<lambda>k. max (of_int (eating_time a) + g k * 2000) 0 / 60) [0..<m]"

text \<open>
  The service steps of one hall as the specification words them: every entry is decremented
  once, the entries at or below zero leave, and each entry that leaves the line adds one
  fresh eating entry (decremented and checked in the same tick).
\<close>

definition serve_hall_spec :: "args \<Rightarrow> real \<Rightarrow> hall_people \<Rightarrow> rng \<Rightarrow> hall_people \<times> rng" where
  "serve_hall_spec a d hp g =
     (let served = length (filter (\<lambda>x. x \<le> 0) (map (\<lambda>x. x - d) (in_line hp))) in
      (\<lparr>in_line = filter (\<lambda>x. \<not> x \<le> 0) (map (\<lambda>x. x - d) (in_line hp)),
        eating = filter (\<lambda>x. \<not> x \<le> 0)
                   (map (\<lambda>x. x - d) (eating hp @ fresh_eating a served g))\<rparr>,
       \<lambda>k. g (k + served)))"

text \<open>The number of line entries of a hall that a tick of \<open>d\<close> minutes serves, and the
  number served in the halls that precede a hall in the catalog.\<close>

definition served :: "real \<Rightarrow> hall_people \<Rightarrow> nat" where
  "served d hp = length (filter (\<lambda>x. x \<le> 0) (map (\<lambda>x. x - d) (in_line hp)))"

definition served_in :: "real \<Rightarrow> (hall \<Rightarrow> hall_people) \<Rightarrow> hall list \<Rightarrow> nat" where
  "served_in d halls hs = sum_list (map (\<lambda>h. served d (halls h)) hs)"

definition served_before :: "real \<Rightarrow> (hall \<Rightarrow> hall_people) \<Rightarrow> hall \<Rightarrow> nat" where
  "served_before d halls h = served_in d halls (takeWhile (\<lambda>h'. h' \<noteq> h) DINING_HALLS_keys)"

text \<open>The first hall of a list, open or not, that a person is within 100 meters of; the
  scan raises when a distance before the first hit cannot be computed.\<close>

fun first_hall_in :: "float_ops \<Rightarrow> person \<Rightarrow> hall list \<Rightarrow> py_error + hall option" where
  "first_hall_in fl p [] = Inr None"
| "first_hall_in fl p (h # hs) =
     (case in_dining_hall fl p h of
        Inl e \<Rightarrow> Inl e
      | Inr b \<Rightarrow> if b then Inr (Some h) else first_hall_in fl p hs)"

definition first_hall :: "float_ops \<Rightarrow> person \<Rightarrow> py_error + hall option" where
  "first_hall fl p = first_hall_in fl p DINING_HALLS_keys"

text \<open>The wait pushed on a line of length \<open>n\<close> when the gaussian draw is \<open>z\<close>.\<close>

definition line_wait :: "args \<Rightarrow> nat \<Rightarrow> real \<Rightarrow> real" where
  "line_wait a n z = min (max (of_nat n * of_int (line_time a) + z * 10) 0 / 60) 60"

text \<open>The arrival of one person: nothing, or one wait pushed on the line of its first hall.\<close>

definition arrive ::
  "float_ops \<Rightarrow> args \<Rightarrow> person \<Rightarrow> (hall \<Rightarrow> hall_people) \<times> rng \<Rightarrow> (hall \<Rightarrow> hall_people) \<times> rng" where
  "arrive fl a p st =
     (case first_hall fl p of
        Inr (Some h) \<Rightarrow>
          ((fst st)(h := (fst st h)\<lparr>in_line := in_line (fst st h)
                                     @ [line_wait a (length (in_line (fst st h))) (snd st 0)]\<rparr>),
           \<lambda>n. snd st (Suc n))
      | _ \<Rightarrow> st)"

text \<open>
  What the movement step does with one outside person when no hall is open: it is given a
  uniform draw, or walks on towards its destination, or is passed over. A draw below
  \<open>CONVERSION_RATE\<close> removes the person.
\<close>

datatype fate = Draw real | Walk person | Pass

fun outcome :: "person \<Rightarrow> fate \<Rightarrow> person list" where
  "outcome p (Draw u) = (if u < CONVERSION_RATE then [] else [p])"
| "outcome p (Walk p') = [p']"
| "outcome p Pass = [p]"

fun draws :: "fate list \<Rightarrow> real list" where
  "draws [] = []"
| "draws (Draw u # fs) = u # draws fs"
| "draws (Walk p' # fs) = draws fs"
| "draws (Pass # fs) = draws fs"

text \<open>
  The fate of the person at position \<open>i\<close> fits the person: only a person without a
  destination is given a draw, a person with a destination walks as \<open>move_towards_fast\<close>
  says, and nobody is passed over unless a draw has removed somebody before.
\<close>

definition fate_fits :: "float_ops \<Rightarrow> args \<Rightarrow> person list \<Rightarrow> fate list \<Rightarrow> nat \<Rightarrow> bool" where
  "fate_fits fl a ps fs i =
     (case fs ! i of
        Draw u \<Rightarrow> destination (ps ! i) = None
      | Walk p' \<Rightarrow> destination (ps ! i) \<noteq> None
                   \<and> move_towards_fast fl (ps ! i) (of_int (time_interval a) * speed (ps ! i)) = Inr p'
      | Pass \<Rightarrow> (\<exists>j<i. \<exists>u. fs ! j = Draw u \<and> u < CONVERSION_RATE))"

text \<open>Every line and every eating list empty, as after \<^verbatim>\<open>__init__\<close> and \<^verbatim>\<open>get_next_day\<close>.\<close>

definition no_people :: "hall \<Rightarrow> hall_people" where
  "no_people = (\<lambda>h. \<lparr>in_line = [], eating = []\<rparr>)"

subsection \<open>Inputs used in the examples\<close>

text \<open>
  One course of three seats that meets on Tuesdays and ends at 07:00, in a classroom about
  89 meters south of Hoch-Shanahan on its meridian; a two-minute tick, so that the first
  simulated day passes the odd minutes 421, 423, ... 1319 and never minute 420.
\<close>

definition seven_am_courses :: "course list" where
  "seven_am_courses =
     [\<lparr>seats_taken = 3,
       course_timing = [\<lparr>timing_days = [''Tuesday''], start_time = ''06:00:00'',
                          end_time = ''07:00:00'',
                          timing_location = \<lparr>school = ''HarveyMudd'', building = ''Parsons'',
                                               room = ''1''\<rparr>\<rparr>]\<rparr>]"

definition seven_am_event :: end_event where
  "seven_am_event =
     \<lparr>event_timing = \<lparr>timing_days = [''Tuesday''], start_time = ''06:00:00'',
                        end_time = ''07:00:00'',
                        timing_location = \<lparr>school = ''HarveyMudd'', building = ''Parsons'',
                                             room = ''1''\<rparr>\<rparr>,
      location_string = ''HarveyMudd-Parsons'', people = 3\<rparr>"

definition seven_am_locations :: "string \<rightharpoonup> string list" where
  "seven_am_locations = [''HarveyMudd-Parsons'' \<mapsto> [''34.10494'', ''-117.70980'']]"

definition two_minute_args :: args where
  "two_minute_args = \<lparr>days = ''MTWRF'', time_interval = 120, eating_time = 3600,
                       line_time = 30, walk_speed = 0.8\<rparr>"

text \<open>The state after \<open>n\<close> ticks in which nothing happened, for these inputs.\<close>

definition quiet_state :: "nat \<Rightarrow> sim_state" where
  "quiet_state n =
     (SimState [(420, [seven_am_event])] seven_am_locations two_minute_args)
       \<lparr>current_minute := 419 + 2 * of_nat n,
        sim_log := (if n = 0 then []
                    else [map (\<lambda>k. snapshot (421 + 2 * of_nat k) [] no_people) [0..<n]])\<rparr>"

text \<open>The person that course spawns at 07:00, and where a two-minute walk at 0.8 m/s
  takes it.\<close>

definition spawned :: person where
  "spawned = \<lparr>loc = (34.10494, -117.70980), speed = 0.8, destination = Some Hoch_Shanahan\<rparr>"

definition walked :: person where
  "walked = spawned\<lparr>loc := (degrees (radians 34.10494 + 96 / (6371 * 10 ^ 3)), -117.70980)\<rparr>"


text \<open>
  One course of three seats that ends at 21:59 in a classroom at the coordinates of
  Hoch-Shanahan; a tick of 900 minutes, so that the first tick of a day lands on minute
  1319 and the second one ends the day; a mean eating time of 1000 hours.
\<close>

definition late_event :: end_event where
  "late_event =
     \<lparr>event_timing = \<lparr>timing_days = [''Monday''], start_time = ''21:00:00'',
                        end_time = ''21:59:00'',
                        timing_location = \<lparr>school = ''HarveyMudd'', building = ''Hoch'',
                                             room = ''1''\<rparr>\<rparr>,
      location_string = ''HarveyMudd-Hoch'', people = 3\<rparr>"

definition late_locations :: "string \<rightharpoonup> string list" where
  "late_locations = [''HarveyMudd-Hoch'' \<mapsto> [''34.10574'', ''-117.70980'']]"

definition long_tick_args :: args where
  "long_tick_args = \<lparr>days = ''MT'', time_interval = 54000, eating_time = 3600000,
                      line_time = 30, walk_speed = 0.8\<rparr>"

text \<open>The state after the first tick for these inputs when every draw is 1/2: one person
  has been spawned, kept, has entered Hoch-Shanahan and is eating.\<close>

definition late_state :: sim_state where
  "late_state =
     (SimState [(1319, [late_event])] late_locations long_tick_args)
       \<lparr>current_minute := 1319,
        people_in_dining_halls := no_people(Hoch_Shanahan := \<lparr>in_line = [], eating = [177350 / 3]\<rparr>),
        sim_log := [[\<lparr>minute = 1319, outside = 0,
                       hall_counts = [(Hoch_Shanahan, 0, 1), (Malott, 0, 0), (Collins, 0, 0),
                                      (McConnell, 0, 0), (Frary, 0, 0), (Frank, 0, 0)]\<rparr>]]\<rparr>"

section \<open>Properties\<close>

subsection \<open>Distances and the choice of a destination\<close>

lemma cos_law_bounded:
  "- 1 \<le> sin a * sin b + cos a * cos b * cos c \<and> sin a * sin b + cos a * cos b * cos c \<le> (1::real)"
proof -
  have c: "\<bar>cos c\<bar> \<le> 1" by (simp add: abs_cos_le_one)
  have "\<bar>cos a * cos b * cos c\<bar> \<le> \<bar>cos a * cos b\<bar>"
    using c by (metis abs_mult mult.right_neutral mult_left_mono abs_ge_zero)
  hence t: "- \<bar>cos a * cos b\<bar> \<le> cos a * cos b * cos c" "cos a * cos b * cos c \<le> \<bar>cos a * cos b\<bar>"
    by linarith+
  have d: "cos (a - b) = cos a * cos b + sin a * sin b" by (simp add: cos_diff)
  have s: "cos (a + b) = cos a * cos b - sin a * sin b" by (simp add: cos_add)
  have "- 1 \<le> cos (a - b)" "cos (a - b) \<le> 1" "- 1 \<le> cos (a + b)" "cos (a + b) \<le> 1" by simp_all
  with d s t show ?thesis by (cases "0 \<le> cos a * cos b") linarith+
qed

subsubsection \<open>The arithmetic that does not round\<close>

lemma exact_arith:
  "fadd exact_floats x y = x + y" "fsub exact_floats x y = x - y"
  "fmul exact_floats x y = x * y" "fdiv exact_floats x y = x / y"
  "libm_sin exact_floats = sin" "libm_cos exact_floats = cos" "libm_atan2 exact_floats = atan2"
  "libm_pi exact_floats = pi"
  by (simp_all add: exact_floats_def fadd_def fsub_def fmul_def fdiv_def)

lemma math_radians_exact: "math_radians exact_floats x = radians x"
  by (simp add: math_radians_def radians_def exact_arith)

lemma math_degrees_exact: "math_degrees exact_floats x = degrees x"
  by (simp add: math_degrees_def degrees_def exact_arith)

lemma math_acos_exact:
  "math_acos exact_floats x = (if x < - 1 \<or> 1 < x then Inl ValueError else Inr (arccos x))"
  by (simp add: math_acos_def exact_floats_def)

lemma math_asin_exact:
  "math_asin exact_floats x = (if x < - 1 \<or> 1 < x then Inl ValueError else Inr (arcsin x))"
  by (simp add: math_asin_def exact_floats_def)

lemma float_mod_exact:
  "float_mod exact_floats x y =
     (if y = 0 then Inl ZeroDivisionError else Inr (x - y * of_int \<lfloor>x / y\<rfloor>))"
  by (simp add: float_mod_def exact_floats_def)

lemma get_distance_exact:
  "get_distance exact_floats self l =
     (case math_acos exact_floats
             (sin (radians (fst l)) * sin (radians (fst (loc self)))
              + cos (radians (fst l)) * cos (radians (fst (loc self)))
                * cos (radians (snd l) - radians (snd (loc self)))) of
        Inl e \<Rightarrow> Inl e
      | Inr distance \<Rightarrow> Inr (distance * 6371 * 10 ^ 3))"
  unfolding get_distance_def Let_def fst_conv snd_conv exact_arith math_radians_exact ..

lemma get_distance_total: "\<exists>d. get_distance exact_floats self l = Inr d \<and> 0 \<le> d"
  using cos_law_bounded [of "radians (fst l)" "radians (fst (loc self))" "radians (snd l) - radians (snd (loc self))"]
  by (simp add: get_distance_exact math_acos_exact arccos_lbound)

lemma get_distance_same_place:
  "loc self = l \<Longrightarrow> get_distance exact_floats self l = Inr 0"
proof -
  assume "loc self = l"
  moreover have "sin (radians (fst l)) * sin (radians (fst l))
      + cos (radians (fst l)) * cos (radians (fst l)) = 1"
    using sin_cos_squared_add [of "radians (fst l)"] by (simp add: power2_eq_square)
  ultimately show ?thesis by (simp add: get_distance_exact math_acos_exact)
qed

lemma arccos_cos_abs: "\<bar>x\<bar> \<le> pi \<Longrightarrow> arccos (cos x) = \<bar>x\<bar>"
  by (cases "0 \<le> x") (simp_all add: arccos_cos arccos_cos2)

lemma get_distance_meridian:
  assumes "snd (loc p) = snd l"
    and "\<bar>radians (fst l) - radians (fst (loc p))\<bar> \<le> pi"
  shows "get_distance exact_floats p l
           = Inr (\<bar>radians (fst l) - radians (fst (loc p))\<bar> * 6371 * 10 ^ 3)"
proof -
  let ?a = "radians (fst l)" and ?b = "radians (fst (loc p))"
  have c: "sin ?a * sin ?b + cos ?a * cos ?b * cos (radians (snd l) - radians (snd (loc p)))
             = cos (?a - ?b)"
    using assms(1) by (simp add: cos_diff)
  have m: "math_acos exact_floats (cos (?a - ?b)) = Inr \<bar>?a - ?b\<bar>"
    using arccos_cos_abs [OF assms(2)] cos_ge_minus_one [of "?a - ?b"] cos_le_one [of "?a - ?b"]
    by (simp add: math_acos_exact not_less)
  show ?thesis
    unfolding get_distance_exact c m by simp
qed

subsubsection \<open>Weighted choice\<close>

lemma accumulate_from_length: "length (accumulate_from acc ws) = length ws"
  by (induction ws arbitrary: acc) auto

lemma accumulate_from_Nil: "accumulate_from acc ws = [] \<longleftrightarrow> ws = []"
  by (cases ws) auto

lemma accumulate_from_last: "ws \<noteq> [] \<Longrightarrow> last (accumulate_from acc ws) = acc + sum_list ws"
proof (induction ws arbitrary: acc)
  case Nil then show ?case by simp
next
  case (Cons w ws)
  show ?case
  proof (cases "ws = []")
    case True then show ?thesis by simp
  next
    case False
    then show ?thesis using Cons.IH [OF False, of "acc + w"]
      by (simp add: accumulate_from_Nil algebra_simps)
  qed
qed

lemma bisect_right_le: "lo \<le> hi \<Longrightarrow> bisect_right a x lo hi \<le> hi"
proof (induction a x lo hi rule: bisect_right.induct)
  case (1 a x lo hi)
  show ?case
  proof (cases "lo < hi")
    case True
    have m: "lo \<le> (lo + hi) div 2" "(lo + hi) div 2 \<le> hi" "(lo + hi) div 2 + 1 \<le> hi"
      using True by linarith+
    show ?thesis
    proof (cases "x < a ! ((lo + hi) div 2)")
      case x: True
      have "bisect_right a x lo ((lo + hi) div 2) \<le> (lo + hi) div 2"
        using "1.IH"(1) [OF True x m(1)] .
      then show ?thesis using True x m by (subst bisect_right.simps) simp
    next
      case x: False
      have "bisect_right a x ((lo + hi) div 2 + 1) hi \<le> hi"
        using "1.IH"(2) [OF True x m(3)] .
      then show ?thesis using True x by (subst bisect_right.simps) simp
    qed
  next
    case False
    then show ?thesis using 1 by (subst bisect_right.simps) simp
  qed
qed

lemma sum_list_nonneg_le0:
  "(\<forall>d\<in>set ds. (0::real) \<le> d) \<Longrightarrow> sum_list ds \<le> 0 \<longleftrightarrow> (\<forall>d\<in>set ds. d = 0)"
proof (induction ds)
  case Nil show ?case by simp
next
  case (Cons d ds)
  have "0 \<le> sum_list ds" using Cons.prems by (simp add: sum_list_nonneg)
  then show ?case using Cons by auto
qed

lemma sum_list_pos_elem: "0 < sum_list ds \<Longrightarrow> \<exists>d\<in>set ds. (0::real) < d"
proof (induction ds)
  case Nil then show ?case by simp
next
  case (Cons d ds)
  show ?case
  proof (cases "0 < d")
    case True then show ?thesis by simp
  next
    case False
    then have "0 < sum_list ds" using Cons.prems by simp
    then show ?thesis using Cons.IH by auto
  qed
qed

lemma distances_length: "distances fl self hs = Inr ds \<Longrightarrow> length ds = length hs"
  by (induction hs arbitrary: ds) (auto split: sum.splits)

lemma distances_nth:
  "distances fl self hs = Inr ds \<Longrightarrow> i < length hs \<Longrightarrow>
     get_distance fl self (location (DINING_HALLS (hs ! i))) = Inr (ds ! i)"
proof (induction hs arbitrary: ds i)
  case Nil then show ?case by simp
next
  case (Cons h hs)
  then show ?case by (cases i) (auto split: sum.splits)
qed

lemma distances_all:
  "\<forall>h\<in>set hs. \<exists>d. get_distance fl self (location (DINING_HALLS h)) = Inr d \<and> P d \<Longrightarrow>
     \<exists>ds. distances fl self hs = Inr ds \<and> (\<forall>d\<in>set ds. P d)"
proof (induction hs)
  case Nil show ?case by simp
next
  case (Cons h hs)
  obtain d where d: "get_distance fl self (location (DINING_HALLS h)) = Inr d" "P d"
    using Cons.prems by auto
  obtain ds where ds: "distances fl self hs = Inr ds" "\<forall>d\<in>set ds. P d"
    using Cons by auto
  show ?case using d ds by simp
qed

lemma random_choices_result:
  assumes "length ws = length pop" "pop \<noteq> []"
  shows "random_choices pop ws g =
           (if sum_list ws \<le> 0 then Inl ValueError
            else Inr (pop ! bisect_right (accumulate ws) (g 0 * sum_list ws) 0 (length pop - 1),
                      \<lambda>n. g (Suc n)))"
proof -
  have ne: "ws \<noteq> []" using assms by auto
  have l: "last (accumulate ws) = sum_list ws"
    using accumulate_from_last [OF ne, of 0] by (simp add: accumulate_def)
  have n: "accumulate ws \<noteq> []" using ne by (simp add: accumulate_def accumulate_from_Nil)
  show ?thesis
    using assms l n
    by (simp add: random_choices_def Let_def accumulate_def accumulate_from_length
        random_random_def next_draw_def)
qed

lemma bisect_right_same: "bisect_right a x lo lo = lo"
  by (subst bisect_right.simps) simp

lemma choose_dest_weights:
  assumes "choices \<noteq> []" and "distances fl self choices = Inr ds"
  shows "choose_dest fl self choices g =
      (if sum_list ds \<le> 0 then Inl ValueError
       else Inr (self\<lparr>destination := Some (choices ! bisect_right (accumulate ds) (g 0 * sum_list ds) 0 (length choices - 1))\<rparr>,
                 \<lambda>n. g (Suc n)))"
  using assms distances_length [OF assms(2)] by (simp add: choose_dest_def random_choices_result)

lemma choose_dest_single:
  assumes "get_distance fl p (location (DINING_HALLS h)) = Inr d" and "0 < d"
  shows "choose_dest fl p [h] g = Inr (p\<lparr>destination := Some h\<rparr>, \<lambda>n. g (Suc n))"
proof -
  have r: "random_choices [h] [d] g = Inr (h, \<lambda>n. g (Suc n))"
    using assms(2) by (simp add: random_choices_result bisect_right_same)
  show ?thesis using assms(1) r by (simp add: choose_dest_def)
qed

text \<open>
  Claim C10. Called with a non-empty list of choices whose distances from the person, as
  \<open>get_distance\<close> computes them, are all zero (every weight is zero), \<open>choose_dest\<close> raises
  \<^verbatim>\<open>ValueError\<close> and assigns no destination; on a non-empty list it succeeds only when some
  choice lies at a strictly positive computed distance, and it does succeed when all
  distances are computed, none is negative and one is positive. This holds whatever the
  float arithmetic is.
\<close>

theorem choose_dest_zero_weights:
  assumes "choices \<noteq> []"
  shows "((\<forall>h\<in>set choices. get_distance fl self (location (DINING_HALLS h)) = Inr 0)
            \<longrightarrow> choose_dest fl self choices g = Inl ValueError)
         \<and> ((\<exists>r. choose_dest fl self choices g = Inr r)
            \<longrightarrow> (\<exists>h\<in>set choices. \<exists>d. get_distance fl self (location (DINING_HALLS h)) = Inr d \<and> 0 < d))
         \<and> ((\<forall>h\<in>set choices. \<exists>d. get_distance fl self (location (DINING_HALLS h)) = Inr d \<and> 0 \<le> d)
              \<and> (\<exists>h\<in>set choices. \<exists>d. get_distance fl self (location (DINING_HALLS h)) = Inr d \<and> 0 < d)
            \<longrightarrow> (\<exists>r. choose_dest fl self choices g = Inr r))"
proof (intro conjI impI)
  assume z: "\<forall>h\<in>set choices. get_distance fl self (location (DINING_HALLS h)) = Inr 0"
  then have "\<forall>h\<in>set choices. \<exists>d. get_distance fl self (location (DINING_HALLS h)) = Inr d \<and> d = 0"
    by simp
  from distances_all [OF this] obtain ds where
    ds: "distances fl self choices = Inr ds" "\<forall>d\<in>set ds. d = 0" by blast
  have "sum_list ds = 0" using ds(2) by (induction ds) simp_all
  then show "choose_dest fl self choices g = Inl ValueError"
    using choose_dest_weights [OF assms ds(1), of g] by simp
next
  assume "\<exists>r. choose_dest fl self choices g = Inr r"
  then obtain r where r: "choose_dest fl self choices g = Inr r" ..
  then obtain ds where ds: "distances fl self choices = Inr ds"
    using assms by (auto simp: choose_dest_def split: sum.splits)
  have "0 < sum_list ds"
    using r choose_dest_weights [OF assms ds, of g] by (simp split: if_splits)
  from sum_list_pos_elem [OF this] obtain d where d: "d \<in> set ds" "0 < d" by blast
  then obtain i where i: "i < length ds" "ds ! i = d" by (auto simp: in_set_conv_nth)
  have il: "i < length choices" using i(1) distances_length [OF ds] by simp
  have "get_distance fl self (location (DINING_HALLS (choices ! i))) = Inr d"
    using distances_nth [OF ds il] i(2) by simp
  moreover have "choices ! i \<in> set choices" using il by simp
  ultimately show "\<exists>h\<in>set choices. \<exists>d. get_distance fl self (location (DINING_HALLS h)) = Inr d \<and> 0 < d"
    using d(2) by blast
next
  assume a: "(\<forall>h\<in>set choices. \<exists>d. get_distance fl self (location (DINING_HALLS h)) = Inr d \<and> 0 \<le> d)
              \<and> (\<exists>h\<in>set choices. \<exists>d. get_distance fl self (location (DINING_HALLS h)) = Inr d \<and> 0 < d)"
  from distances_all [of choices fl self "\<lambda>d. 0 \<le> d"] a obtain ds where
    ds: "distances fl self choices = Inr ds" "\<forall>d\<in>set ds. 0 \<le> d" by blast
  from a obtain h d where h: "h \<in> set choices"
    "get_distance fl self (location (DINING_HALLS h)) = Inr d" "0 < d" by blast
  then obtain i where i: "i < length choices" "choices ! i = h" by (auto simp: in_set_conv_nth)
  have "ds ! i = d" using distances_nth [OF ds(1) i(1)] i(2) h(2) by simp
  moreover have "ds ! i \<in> set ds" using i(1) distances_length [OF ds(1)] by simp
  ultimately have "\<not> (\<forall>d\<in>set ds. d = 0)" using h(3) by force
  then have "\<not> sum_list ds \<le> 0" using sum_list_nonneg_le0 [OF ds(2)] by simp
  then show "\<exists>r. choose_dest fl self choices g = Inr r"
    using choose_dest_weights [OF assms ds(1), of g] by simp
qed

text \<open>A person at the coordinates of Malott has distance zero from it (in the machine's
  doubles as well); a person 0.0008 degrees of latitude south of Malott, about 89 meters,
  has not.\<close>

theorem choose_dest_zero_weights_witness:
  "[Malott] \<noteq> []
   \<and> list_all (\<lambda>h. get_distance exact_floats (Person (34.10284, -117.71064) 1)
                      (location (DINING_HALLS h)) = Inr 0) [Malott]
   \<and> choose_dest exact_floats (Person (34.10284, -117.71064) 1) [Malott] (\<lambda>n. 0) = Inl ValueError
   \<and> choose_dest exact_floats (Person (34.10204, -117.71064) 1) [Malott] (\<lambda>n. 0)
       = Inr ((Person (34.10204, -117.71064) 1)\<lparr>destination := Some Malott\<rparr>, \<lambda>n. 0)
   \<and> list_ex (\<lambda>h. \<exists>d. get_distance exact_floats (Person (34.10204, -117.71064) 1)
                           (location (DINING_HALLS h)) = Inr d \<and> 0 < d) [Malott]"
proof -
  let ?p = "Person (34.10284, -117.71064) 1"
  let ?q = "Person (34.10204, -117.71064) 1"
  let ?l = "location (DINING_HALLS Malott)"
  have ne: "[Malott] \<noteq> []" by simp
  have z: "get_distance exact_floats ?p ?l = Inr 0"
    by (rule get_distance_same_place) (simp add: Person_def)
  have e: "radians (fst ?l) - radians (fst (loc ?q)) = pi / 225000"
    by (simp add: Person_def radians_def)
  have "snd (loc ?q) = snd ?l" by (simp add: Person_def)
  moreover have "\<bar>radians (fst ?l) - radians (fst (loc ?q))\<bar> \<le> pi" unfolding e by simp
  ultimately have "get_distance exact_floats ?q ?l
      = Inr (\<bar>radians (fst ?l) - radians (fst (loc ?q))\<bar> * 6371 * 10 ^ 3)"
    by (rule get_distance_meridian)
  then have d: "get_distance exact_floats ?q ?l = Inr (\<bar>pi / 225000\<bar> * 6371 * 10 ^ 3)"
    unfolding e .
  have pos: "0 < \<bar>pi / 225000\<bar> * 6371 * 10 ^ 3" by simp
  have s: "choose_dest exact_floats ?q [Malott] (\<lambda>n. 0) = Inr (?q\<lparr>destination := Some Malott\<rparr>, \<lambda>n. 0)"
    using choose_dest_single [OF d pos, of "\<lambda>n. 0"] by simp
  from choose_dest_zero_weights [OF ne, of exact_floats ?p "\<lambda>n. 0"] z
  have a: "choose_dest exact_floats ?p [Malott] (\<lambda>n. 0) = Inl ValueError" by simp
  from choose_dest_zero_weights [OF ne, of exact_floats ?q "\<lambda>n. 0"] s
  have b: "\<exists>d. get_distance exact_floats ?q ?l = Inr d \<and> 0 < d" by simp
  show ?thesis using ne z a s b by simp
qed
subsection \<open>The service steps\<close>

lemma length_marked: "length (marked P n xs) = length (filter P xs)"
  by (induction xs arbitrary: n) auto

lemma list_pop_middle: "list_pop (kept @ x # xs) (int (length kept)) = Inr (kept @ xs)"
  by (simp add: list_pop_def remove_at_def)

lemma pop_indices_marked:
  "n = length kept + r \<Longrightarrow>
   pop_indices (kept @ xs) (marked P n xs) r = Inr (kept @ filter (\<lambda>x. \<not> P x) xs)"
proof (induction xs arbitrary: kept n r)
  case Nil
  then show ?case by simp
next
  case (Cons x xs)
  show ?case
  proof (cases "P x")
    case True
    have i: "int n - int r = int (length kept)" using Cons.prems by simp
    have "pop_indices (kept @ xs) (marked P (Suc n) xs) (r + 1) = Inr (kept @ filter (\<lambda>x. \<not> P x) xs)"
      by (rule Cons.IH) (use Cons.prems in simp)
    then show ?thesis using True i by (simp add: list_pop_middle)
  next
    case False
    have "pop_indices ((kept @ [x]) @ xs) (marked P (Suc n) xs) r
            = Inr ((kept @ [x]) @ filter (\<lambda>x. \<not> P x) xs)"
      by (rule Cons.IH) (use Cons.prems in simp)
    then show ?thesis using False by simp
  qed
qed

lemma decrement_from_marked:
  "index \<le> length q \<Longrightarrow>
   decrement_from d index q to_remove =
     (take index q @ map (\<lambda>x. x - d) (drop index q),
      to_remove @ marked (\<lambda>x. x \<le> 0) index (map (\<lambda>x. x - d) (drop index q)))"
proof (induction d index q to_remove rule: decrement_from.induct)
  case (1 d index q to_remove)
  show ?case
  proof (cases "index < length q")
    case True
    let ?q = "q[index := q ! index - d]"
    have dr: "drop index q = q ! index # drop (Suc index) q"
      using True by (simp add: Cons_nth_drop_Suc)
    have tk: "take (Suc index) ?q = take index q @ [q ! index - d]"
      using True by (simp add: take_Suc_conv_app_nth)
    have dq: "drop (Suc index) ?q = drop (Suc index) q" by simp
    have nth: "?q ! index = q ! index - d" using True by simp
    have "decrement_from d index q to_remove =
            decrement_from d (Suc index) ?q
              (if ?q ! index \<le> 0 then to_remove @ [index] else to_remove)"
      using True by (subst decrement_from.simps) simp
    also have "\<dots> = (take (Suc index) ?q @ map (\<lambda>x. x - d) (drop (Suc index) ?q),
        (if ?q ! index \<le> 0 then to_remove @ [index] else to_remove)
          @ marked (\<lambda>x. x \<le> 0) (Suc index) (map (\<lambda>x. x - d) (drop (Suc index) ?q)))"
      by (rule "1.IH") (use True in simp_all)
    finally show ?thesis using dr tk dq nth by simp
  next
    case False
    then show ?thesis using "1.prems" by (subst decrement_from.simps) simp
  qed
qed

lemma fresh_eating_Suc:
  "fresh_eating a (Suc m) g = (max (of_int (eating_time a) + g 0 * 2000) 0 / 60) # fresh_eating a m (\<lambda>n. g (Suc n))"
proof -
  have "[0..<Suc m] = 0 # map Suc [0..<m]"
    by (simp add: upt_conv_Cons map_Suc_upt del: upt_Suc)
  then show ?thesis by (simp add: fresh_eating_def o_def del: upt_Suc)
qed

lemma line_to_eating_marked:
  "n = length kept + r \<Longrightarrow>
   line_to_eating a (marked P n xs) r (kept @ xs) eat g =
     Inr (kept @ filter (\<lambda>x. \<not> P x) xs,
          eat @ fresh_eating a (length (filter P xs)) g,
          \<lambda>k. g (k + length (filter P xs)))"
proof (induction xs arbitrary: kept n r eat g)
  case Nil
  then show ?case by (simp add: fresh_eating_def)
next
  case (Cons x xs)
  show ?case
  proof (cases "P x")
    case True
    have i: "int n - int r = int (length kept)" using Cons.prems by simp
    have "line_to_eating a (marked P (Suc n) xs) (r + 1) (kept @ xs)
             (eat @ [max (of_int (eating_time a) + g 0 * 2000) 0 / 60]) (\<lambda>n. g (Suc n))
          = Inr (kept @ filter (\<lambda>x. \<not> P x) xs,
                 (eat @ [max (of_int (eating_time a) + g 0 * 2000) 0 / 60])
                   @ fresh_eating a (length (filter P xs)) (\<lambda>n. g (Suc n)),
                 \<lambda>k. (\<lambda>n. g (Suc n)) (k + length (filter P xs)))"
      by (rule Cons.IH) (use Cons.prems in simp)
    then show ?thesis using True i
      by (simp add: list_pop_middle random_gauss_def next_draw_def fresh_eating_Suc)
  next
    case False
    have "line_to_eating a (marked P (Suc n) xs) r ((kept @ [x]) @ xs) eat g
            = Inr ((kept @ [x]) @ filter (\<lambda>x. \<not> P x) xs,
                   eat @ fresh_eating a (length (filter P xs)) g,
                   \<lambda>k. g (k + length (filter P xs)))"
      by (rule Cons.IH) (use Cons.prems in simp)
    then show ?thesis using False by simp
  qed
qed

lemma serve_hall_eq: "serve_hall a d hp g = Inr (serve_hall_spec a d hp g)"
proof -
  let ?P = "\<lambda>x::real. x \<le> 0"
  let ?l1 = "map (\<lambda>x. x - d) (in_line hp)"
  have d1: "decrement_from d 0 (in_line hp) [] = (?l1, marked ?P 0 ?l1)"
    using decrement_from_marked [of 0 "in_line hp" d "[]"] by simp
  have l2: "line_to_eating a (marked ?P 0 ?l1) 0 ?l1 (eating hp) g =
      Inr (filter (\<lambda>x. \<not> ?P x) ?l1, eating hp @ fresh_eating a (length (filter ?P ?l1)) g,
           \<lambda>k. g (k + length (filter ?P ?l1)))"
    using line_to_eating_marked [of 0 "[]" 0 a ?P ?l1 "eating hp" g] by simp
  let ?e1 = "eating hp @ fresh_eating a (length (filter ?P ?l1)) g"
  let ?e2 = "map (\<lambda>x. x - d) ?e1"
  have d2: "decrement_from d 0 ?e1 [] = (?e2, marked ?P 0 ?e2)"
    using decrement_from_marked [of 0 ?e1 d "[]"] by simp
  have p2: "pop_indices ?e2 (marked ?P 0 ?e2) 0 = Inr (filter (\<lambda>x. \<not> ?P x) ?e2)"
    using pop_indices_marked [of 0 "[]" 0 ?e2 ?P] by simp
  show ?thesis
    unfolding serve_hall_def serve_hall_spec_def Let_def
    by (simp only: d1 l2 d2 p2 prod.case sum.case)
qed

lemma all_halls: "h \<in> set DINING_HALLS_keys"
  by (cases h) (simp_all add: DINING_HALLS_keys_def)

lemma distinct_halls: "distinct DINING_HALLS_keys"
  by (simp add: DINING_HALLS_keys_def)


lemma serve_hall_spec_gen:
  "snd (serve_hall_spec a d hp g) = (\<lambda>k. g (k + served d hp))"
  by (simp add: serve_hall_spec_def served_def Let_def)

lemma served_in_upd:
  "x \<notin> set ys \<Longrightarrow> served_in d (halls(x := hp)) ys = served_in d halls ys"
  unfolding served_in_def by (induction ys) auto

lemma serve_halls_step:
  "serve_halls a d (x # hs) (halls, g) =
     serve_halls a d hs (halls(x := fst (serve_hall_spec a d (halls x) g)),
                         \<lambda>k. g (k + served d (halls x)))"
proof -
  obtain hp g1 where sp: "serve_hall_spec a d (halls x) g = (hp, g1)"
    by (cases "serve_hall_spec a d (halls x) g")
  have g1: "g1 = (\<lambda>k. g (k + served d (halls x)))"
    using serve_hall_spec_gen [of a d "halls x" g] sp by simp
  show ?thesis
    using sp g1 by (simp add: serve_halls_def serve_hall_eq)
qed

lemma serve_halls_served:
  "distinct hs \<Longrightarrow>
   serve_halls a d hs (halls, g) =
     Inr (\<lambda>h. if h \<in> set hs
               then fst (serve_hall_spec a d (halls h)
                           (\<lambda>k. g (k + served_in d halls (takeWhile (\<lambda>h'. h' \<noteq> h) hs))))
               else halls h,
          \<lambda>k. g (k + served_in d halls hs))"
proof (induction hs arbitrary: halls g)
  case Nil
  show ?case by (simp add: serve_halls_def served_in_def)
next
  case (Cons x hs)
  from Cons.prems have dx: "x \<notin> set hs" "distinct hs" by simp_all
  let ?hp = "fst (serve_hall_spec a d (halls x) g)"
  let ?halls = "halls(x := ?hp)"
  let ?g = "\<lambda>k. g (k + served d (halls x))"
  have tw: "x \<notin> set (takeWhile P hs)" for P
    using dx(1) by (auto dest: set_takeWhileD)
  have halls_eq:
    "(\<lambda>h. if h \<in> set hs
          then fst (serve_hall_spec a d (?halls h)
                      (\<lambda>k. ?g (k + served_in d ?halls (takeWhile (\<lambda>h'. h' \<noteq> h) hs))))
          else ?halls h)
     = (\<lambda>h. if h \<in> set (x # hs)
            then fst (serve_hall_spec a d (halls h)
                        (\<lambda>k. g (k + served_in d halls (takeWhile (\<lambda>h'. h' \<noteq> h) (x # hs)))))
            else halls h)"
  proof (rule ext)
    fix h
    show "(if h \<in> set hs
          then fst (serve_hall_spec a d (?halls h)
                      (\<lambda>k. ?g (k + served_in d ?halls (takeWhile (\<lambda>h'. h' \<noteq> h) hs))))
          else ?halls h)
     = (if h \<in> set (x # hs)
            then fst (serve_hall_spec a d (halls h)
                        (\<lambda>k. g (k + served_in d halls (takeWhile (\<lambda>h'. h' \<noteq> h) (x # hs)))))
            else halls h)"
    proof (cases "h = x")
      case True
      have "(\<lambda>k. g (k + served_in d halls [])) = g" by (simp add: served_in_def)
      then show ?thesis using True dx(1) by simp
    next
      case False
      have t: "takeWhile (\<lambda>h'. h' \<noteq> h) (x # hs) = x # takeWhile (\<lambda>h'. h' \<noteq> h) hs"
        using False by simp
      have s: "served_in d halls (x # ys) = served d (halls x) + served_in d halls ys" for ys
        by (simp add: served_in_def)
      have u: "served_in d ?halls (takeWhile (\<lambda>h'. h' \<noteq> h) hs)
                 = served_in d halls (takeWhile (\<lambda>h'. h' \<noteq> h) hs)"
        by (rule served_in_upd) (rule tw)
      have e: "(\<lambda>k. ?g (k + served_in d ?halls (takeWhile (\<lambda>h'. h' \<noteq> h) hs)))
                 = (\<lambda>k. g (k + served_in d halls (takeWhile (\<lambda>h'. h' \<noteq> h) (x # hs))))"
        unfolding t s u by (simp add: ac_simps)
      show ?thesis
      proof (cases "h \<in> set hs")
        case True
        then show ?thesis using False unfolding e by simp
      next
        case h: False
        then show ?thesis using False by simp
      qed
    qed
  qed
  have g_eq: "(\<lambda>k. ?g (k + served_in d ?halls hs)) = (\<lambda>k. g (k + served_in d halls (x # hs)))"
  proof -
    have "served_in d ?halls hs = served_in d halls hs" by (rule served_in_upd) (rule dx(1))
    moreover have "served_in d halls (x # hs) = served d (halls x) + served_in d halls hs"
      by (simp add: served_in_def)
    ultimately show ?thesis by (simp add: ac_simps)
  qed
  have "serve_halls a d (x # hs) (halls, g) = serve_halls a d hs (?halls, ?g)"
    by (rule serve_halls_step)
  also have "\<dots> = Inr (\<lambda>h. if h \<in> set hs
          then fst (serve_hall_spec a d (?halls h)
                      (\<lambda>k. ?g (k + served_in d ?halls (takeWhile (\<lambda>h'. h' \<noteq> h) hs))))
          else ?halls h,
        \<lambda>k. ?g (k + served_in d ?halls hs))"
    by (rule Cons.IH [OF dx(2)])
  finally show ?case unfolding halls_eq g_eq .
qed

text \<open>
  Claim C6. The service steps of a tick never raise, and for every hall: each line entry
  present at the start is decremented by \<open>delta_minutes\<close> exactly once and then checked, the
  entries at or below zero are removed and the others keep their order; each removed line
  entry appends exactly one fresh entry to the eating queue, sampled from the next draw of
  the generator (the halls draw in catalog order); each eating entry, those present at the
  start and the fresh ones, is decremented exactly once and then checked in the same way.
  The generator returned has advanced by the number of entries served.
\<close>

theorem service_decrements_each_entry_once:
  "serve_halls a d DINING_HALLS_keys (halls, g) =
     Inr (\<lambda>h. \<lparr>in_line = filter (\<lambda>x. \<not> x \<le> 0) (map (\<lambda>x. x - d) (in_line (halls h))),
                 eating = filter (\<lambda>x. \<not> x \<le> 0)
                            (map (\<lambda>x. x - d)
                               (eating (halls h)
                                @ map (\<lambda>k. max (of_int (eating_time a)
                                                 + g (k + served_before d halls h) * 2000) 0 / 60)
                                      [0..<served d (halls h)]))\<rparr>,
          \<lambda>k. g (k + served_in d halls DINING_HALLS_keys))"
proof -
  have "(\<lambda>h. if h \<in> set DINING_HALLS_keys
               then fst (serve_hall_spec a d (halls h)
                           (\<lambda>k. g (k + served_in d halls (takeWhile (\<lambda>h'. h' \<noteq> h) DINING_HALLS_keys))))
               else halls h)
        = (\<lambda>h. \<lparr>in_line = filter (\<lambda>x. \<not> x \<le> 0) (map (\<lambda>x. x - d) (in_line (halls h))),
                 eating = filter (\<lambda>x. \<not> x \<le> 0)
                            (map (\<lambda>x. x - d)
                               (eating (halls h)
                                @ map (\<lambda>k. max (of_int (eating_time a)
                                                 + g (k + served_before d halls h) * 2000) 0 / 60)
                                      [0..<served d (halls h)]))\<rparr>)"
    by (rule ext)
       (simp add: all_halls serve_hall_spec_def Let_def fresh_eating_def served_before_def served_def)
  then show ?thesis
    using serve_halls_served [OF distinct_halls, of a d halls g] by simp
qed
subsection \<open>Arrival at the dining halls\<close>

lemma in_dining_hall_total: "\<exists>b. in_dining_hall exact_floats p h = Inr b"
  using get_distance_total [of p "location (DINING_HALLS h)"]
  by (auto simp: in_dining_hall_def)

lemma first_hall_in_total: "\<exists>r. first_hall_in exact_floats p hs = Inr r"
proof (induction hs)
  case Nil
  show ?case by simp
next
  case (Cons h hs)
  obtain b where "in_dining_hall exact_floats p h = Inr b" using in_dining_hall_total by blast
  then show ?case using Cons by simp
qed

lemma first_hall_total: "\<exists>r. first_hall exact_floats p = Inr r"
  unfolding first_hall_def by (rule first_hall_in_total)

lemma enter_person_first:
  "enter_person fl a index p hs (halls, g, to_remove) =
     (case first_hall_in fl p hs of
        Inl e \<Rightarrow> Inl e
      | Inr None \<Rightarrow> Inr (halls, g, to_remove)
      | Inr (Some h) \<Rightarrow>
          Inr (halls(h := (halls h)\<lparr>in_line := in_line (halls h)
                                      @ [line_wait a (length (in_line (halls h))) (g 0)]\<rparr>),
               \<lambda>n. g (Suc n), to_remove @ [index]))"
proof (induction hs)
  case Nil
  show ?case by simp
next
  case (Cons h hs)
  show ?case
  proof (cases "in_dining_hall fl p h")
    case (Inl e)
    then show ?thesis by simp
  next
    case (Inr b)
    then show ?thesis using Cons
      by (cases b) (simp_all add: random_gauss_def next_draw_def line_wait_def)
  qed
qed

lemma arrive_skip: "\<forall>h. first_hall fl p \<noteq> Inr (Some h) \<Longrightarrow> arrive fl a p st = st"
  by (auto simp: arrive_def split: sum.splits option.splits)

lemma arrive_Some:
  "first_hall fl p = Inr (Some h) \<Longrightarrow>
   arrive fl a p (halls, g) =
     (halls(h := (halls h)\<lparr>in_line := in_line (halls h)
                              @ [line_wait a (length (in_line (halls h))) (g 0)]\<rparr>),
      \<lambda>n. g (Suc n))"
  by (simp add: arrive_def)

lemma enter_person_raises:
  "first_hall fl p = Inl e \<Longrightarrow> enter_person fl a index p DINING_HALLS_keys (halls, g, to_remove) = Inl e"
  by (simp add: enter_person_first first_hall_def)

lemma enter_person_first_hall:
  "first_hall fl p = Inr r \<Longrightarrow>
   enter_person fl a index p DINING_HALLS_keys (halls, g, to_remove) =
     Inr (fst (arrive fl a p (halls, g)), snd (arrive fl a p (halls, g)),
          to_remove @ (if r = None then [] else [index]))"
  by (cases r) (simp_all add: enter_person_first arrive_def, simp_all add: first_hall_def)

lemma enter_loop_returns:
  "enter_loop fl a index ps st = Inr st' \<Longrightarrow> \<forall>p\<in>set ps. \<exists>r. first_hall fl p = Inr r"
proof (induction ps arbitrary: index st)
  case Nil
  show ?case by simp
next
  case (Cons p ps)
  obtain halls g to_remove where st: "st = (halls, g, to_remove)" by (cases st)
  show ?case
  proof (cases "first_hall fl p")
    case (Inl e)
    then show ?thesis using Cons.prems st by (simp add: enter_person_raises)
  next
    case (Inr r)
    then obtain st1 where "enter_loop fl a (Suc index) ps st1 = Inr st'"
      using Cons.prems st by (simp add: enter_person_first_hall)
    from Cons.IH [OF this] Inr show ?thesis by auto
  qed
qed

lemma enter_loop_fold:
  "\<forall>p\<in>set ps. \<exists>r. first_hall fl p = Inr r \<Longrightarrow>
   enter_loop fl a index ps (halls, g, to_remove) =
     Inr (fst (fold (arrive fl a) ps (halls, g)), snd (fold (arrive fl a) ps (halls, g)),
          to_remove @ marked (\<lambda>p. first_hall fl p \<noteq> Inr None) index ps)"
proof (induction ps arbitrary: index halls g to_remove)
  case Nil
  show ?case by simp
next
  case (Cons p ps)
  obtain r where r: "first_hall fl p = Inr r" using Cons.prems by auto
  have rest: "\<forall>p\<in>set ps. \<exists>r. first_hall fl p = Inr r" using Cons.prems by simp
  obtain halls1 g1 where st: "arrive fl a p (halls, g) = (halls1, g1)"
    by (cases "arrive fl a p (halls, g)")
  have e: "enter_person fl a index p DINING_HALLS_keys (halls, g, to_remove)
             = Inr (halls1, g1, to_remove @ (if r = None then [] else [index]))"
    using r st by (simp add: enter_person_first_hall)
  have f: "fold (arrive fl a) (p # ps) (halls, g) = fold (arrive fl a) ps (halls1, g1)"
    using st by simp
  have m: "to_remove @ marked (\<lambda>p. first_hall fl p \<noteq> Inr None) index (p # ps)
             = (to_remove @ (if r = None then [] else [index]))
               @ marked (\<lambda>p. first_hall fl p \<noteq> Inr None) (Suc index) ps"
    using r by simp
  show ?case
    unfolding f m
    using Cons.IH [OF rest, of "Suc index" halls1 g1 "to_remove @ (if r = None then [] else [index])"] e
    by simp
qed

lemma enter_dining_halls_eq:
  assumes "\<forall>p\<in>set ps. \<exists>r. first_hall fl p = Inr r"
  shows "enter_dining_halls fl a ps halls g =
     Inr (filter (\<lambda>p. first_hall fl p = Inr None) ps,
          fst (fold (arrive fl a) ps (halls, g)), snd (fold (arrive fl a) ps (halls, g)))"
  using pop_indices_marked [of 0 "[]" 0 ps "\<lambda>p. first_hall fl p \<noteq> Inr None"]
  by (simp add: enter_dining_halls_def enter_loop_fold [OF assms])

lemma enter_dining_halls_returns:
  assumes "enter_dining_halls fl a ps halls g = Inr r"
  shows "\<forall>p\<in>set ps. \<exists>r. first_hall fl p = Inr r"
proof -
  obtain st' where "enter_loop fl a 0 ps (halls, g, []) = Inr st'"
    using assms by (auto simp: enter_dining_halls_def split: sum.splits)
  then show ?thesis by (rule enter_loop_returns)
qed

lemma enter_dining_halls_exact:
  "enter_dining_halls exact_floats a ps halls g =
     Inr (filter (\<lambda>p. first_hall exact_floats p = Inr None) ps,
          fst (fold (arrive exact_floats a) ps (halls, g)),
          snd (fold (arrive exact_floats a) ps (halls, g)))"
  by (rule enter_dining_halls_eq) (simp add: first_hall_total)

lemma arrivals_counted:
  "length (in_line (fst (fold (arrive fl a) ps (halls, g)) h))
     = length (in_line (halls h)) + length (filter (\<lambda>q. first_hall fl q = Inr (Some h)) ps)"
proof (induction ps arbitrary: halls g)
  case Nil
  show ?case by simp
next
  case (Cons p ps)
  consider (skip) "\<forall>h. first_hall fl p \<noteq> Inr (Some h)"
    | (hit) h' where "first_hall fl p = Inr (Some h')" by blast
  then show ?case
  proof cases
    case skip
    have f: "fold (arrive fl a) (p # ps) (halls, g) = fold (arrive fl a) ps (halls, g)"
      using skip by (simp add: arrive_skip)
    show ?thesis unfolding f using Cons [of halls g] skip by simp
  next
    case hit
    let ?w = "line_wait a (length (in_line (halls h'))) (g 0)"
    let ?halls = "halls(h' := (halls h')\<lparr>in_line := in_line (halls h') @ [?w]\<rparr>)"
    have f: "fold (arrive fl a) (p # ps) (halls, g) = fold (arrive fl a) ps (?halls, \<lambda>n. g (Suc n))"
      using hit by (simp add: arrive_Some)
    have l: "length (in_line (?halls h)) = length (in_line (halls h)) + (if h = h' then 1 else 0)"
      by simp
    show ?thesis unfolding f Cons [of ?halls "\<lambda>n. g (Suc n)"] l using hit by auto
  qed
qed

lemma arrivals_waits:
  "\<exists>added. in_line (fst (fold (arrive fl a) ps (halls, g)) h) = in_line (halls h) @ added
      \<and> (\<forall>j<length added. \<exists>k. added ! j = line_wait a (length (in_line (halls h)) + j) (g k))"
proof (induction ps arbitrary: halls g)
  case Nil
  show ?case by simp
next
  case (Cons p ps)
  consider (skip) "\<forall>h. first_hall fl p \<noteq> Inr (Some h)"
    | (hit) h' where "first_hall fl p = Inr (Some h')" by blast
  then show ?case
  proof cases
    case skip
    have f: "fold (arrive fl a) (p # ps) (halls, g) = fold (arrive fl a) ps (halls, g)"
      using skip by (simp add: arrive_skip)
    show ?thesis unfolding f using Cons [of halls g] .
  next
    case hit
    let ?w = "line_wait a (length (in_line (halls h'))) (g 0)"
    let ?halls = "halls(h' := (halls h')\<lparr>in_line := in_line (halls h') @ [?w]\<rparr>)"
    let ?g = "\<lambda>n. g (Suc n)"
    from Cons [of ?halls ?g] obtain added where
      a: "in_line (fst (fold (arrive fl a) ps (?halls, ?g)) h) = in_line (?halls h) @ added"
      and w: "\<forall>j<length added. \<exists>k. added ! j = line_wait a (length (in_line (?halls h)) + j) (?g k)"
      by blast
    have f: "fold (arrive fl a) (p # ps) (halls, g) = fold (arrive fl a) ps (?halls, ?g)"
      using hit by (simp add: arrive_Some)
    show ?thesis
    proof (cases "h = h'")
      case True
      have "in_line (fst (fold (arrive fl a) (p # ps) (halls, g)) h) = in_line (halls h) @ (?w # added)"
        using a f True by simp
      moreover have "\<exists>k. (?w # added) ! j = line_wait a (length (in_line (halls h)) + j) (g k)"
        if "j < length (?w # added)" for j
      proof (cases j)
        case 0
        then show ?thesis using True by auto
      next
        case (Suc j')
        then have "j' < length added" using that by simp
        then obtain k where "added ! j' = line_wait a (length (in_line (?halls h)) + j') (?g k)"
          using w by blast
        then show ?thesis using Suc True by (auto intro: exI [of _ "Suc k"])
      qed
      ultimately show ?thesis by blast
    next
      case False
      have "in_line (fst (fold (arrive fl a) (p # ps) (halls, g)) h) = in_line (halls h) @ added"
        using a f False by simp
      moreover have "\<exists>k. added ! j = line_wait a (length (in_line (halls h)) + j) (g k)"
        if "j < length added" for j
        using w that False by (auto intro: exI)
      ultimately show ?thesis by blast
    qed
  qed
qed

lemma line_wait_range: "0 \<le> line_wait a n z \<and> line_wait a n z \<le> 60"
  by (simp add: line_wait_def)

lemma at_Hoch_Shanahan:
  "loc p = (34.10574, -117.70980) \<Longrightarrow> first_hall exact_floats p = Inr (Some Hoch_Shanahan)"
proof -
  assume "loc p = (34.10574, -117.70980)"
  then have "get_distance exact_floats p (location (DINING_HALLS Hoch_Shanahan)) = Inr 0"
    by (intro get_distance_same_place) simp
  then show ?thesis by (simp add: first_hall_def DINING_HALLS_keys_def in_dining_hall_def)
qed

text \<open>
  Claim C8. Whenever the arrival step returns, it has only appended to the lines, and every
  wait it has appended lies in \<open>[0, 60]\<close> minutes and is \<open>min (max (base + 10 z) 0 / 60) 60\<close>
  for a draw \<open>z\<close> of the generator, where the base is the length of that line at the moment
  of insertion times the per-person line time in seconds. (The step raises when
  \<^verbatim>\<open>math.acos\<close> is given a value that rounding has pushed outside \<open>[-1, 1]\<close>, which the
  machine's doubles do for some positions within centimeters of a hall.)
\<close>

theorem line_wait_on_arrival:
  assumes "enter_dining_halls fl a ps halls g = Inr (ps', halls', g')"
  shows "\<forall>h. \<exists>added. in_line (halls' h) = in_line (halls h) @ added
           \<and> eating (halls' h) = eating (halls h)
           \<and> (\<forall>j<length added. 0 \<le> added ! j \<and> added ! j \<le> 60
                \<and> (\<exists>k. added ! j =
                      min (max (of_nat (length (in_line (halls h)) + j) * of_int (line_time a)
                                + g k * 10) 0 / 60) 60))"
proof
  fix h
  note scans = enter_dining_halls_returns [OF assms]
  have h': "halls' = fst (fold (arrive fl a) ps (halls, g))"
    using assms enter_dining_halls_eq [OF scans, of a halls g] by simp
  from arrivals_waits [of fl a ps halls g h] obtain added where
    a: "in_line (fst (fold (arrive fl a) ps (halls, g)) h) = in_line (halls h) @ added"
    and w: "\<And>j. j < length added \<Longrightarrow>
              \<exists>k. added ! j = line_wait a (length (in_line (halls h)) + j) (g k)"
    by blast
  have eat: "eating (fst (fold (arrive fl a) qs st) h) = eating (fst st h)" for qs st
  proof (induction qs arbitrary: st)
    case Nil
    show ?case by simp
  next
    case (Cons q qs)
    have "eating (fst (arrive fl a q st) h) = eating (fst st h)"
      by (simp add: arrive_def split: sum.splits option.splits)
    then show ?case using Cons [of "arrive fl a q st"] by simp
  qed
  have "0 \<le> added ! j \<and> added ! j \<le> 60
              \<and> (\<exists>k. added ! j =
                    min (max (of_nat (length (in_line (halls h)) + j) * of_int (line_time a)
                              + g k * 10) 0 / 60) 60)" if jl: "j < length added" for j
  proof -
    obtain k where k: "added ! j = line_wait a (length (in_line (halls h)) + j) (g k)"
      using w [OF jl] by blast
    have "0 \<le> added ! j \<and> added ! j \<le> 60" unfolding k by (rule line_wait_range)
    moreover have "added ! j =
                    min (max (of_nat (length (in_line (halls h)) + j) * of_int (line_time a)
                              + g k * 10) 0 / 60) 60"
      unfolding k line_wait_def ..
    ultimately show ?thesis by blast
  qed
  with a eat [of ps "(halls, g)"]
  show "\<exists>added. in_line (halls' h) = in_line (halls h) @ added
           \<and> eating (halls' h) = eating (halls h)
           \<and> (\<forall>j<length added. 0 \<le> added ! j \<and> added ! j \<le> 60
                \<and> (\<exists>k. added ! j =
                      min (max (of_nat (length (in_line (halls h)) + j) * of_int (line_time a)
                                + g k * 10) 0 / 60) 60))"
    unfolding h' by auto
qed

text \<open>Two people at the coordinates of Hoch-Shanahan, every draw zero: the first waits
  0 minutes, the second, behind one person at 30 seconds each, half a minute.\<close>

theorem line_wait_on_arrival_witness:
  "enter_dining_halls exact_floats
     \<lparr>days = ''M'', time_interval = 60, eating_time = 3600, line_time = 30, walk_speed = 0.8\<rparr>
     [Person (34.10574, -117.70980) 1, Person (34.10574, -117.70980) 1]
     (\<lambda>h. \<lparr>in_line = [], eating = []\<rparr>) (\<lambda>n. 0)
   = Inr ([], (\<lambda>h. \<lparr>in_line = [], eating = []\<rparr>)(Hoch_Shanahan := \<lparr>in_line = [0, 1 / 2], eating = []\<rparr>),
          \<lambda>n. 0)
   \<and> (\<exists>added. [0, 1 / 2] = [] @ added
         \<and> (\<forall>j<length added. 0 \<le> added ! j \<and> added ! j \<le> 60
              \<and> (\<exists>k. added ! j = min (max (of_nat (0 + j) * of_int 30 + (\<lambda>n. 0 :: real) k * 10) 0 / 60) 60)))"
proof -
  let ?a = "\<lparr>days = ''M'', time_interval = 60, eating_time = 3600, line_time = 30, walk_speed = 0.8\<rparr>"
  let ?p = "Person (34.10574, -117.70980) 1"
  let ?e = "\<lambda>h::hall. \<lparr>in_line = [], eating = []\<rparr>"
  have h: "first_hall exact_floats ?p = Inr (Some Hoch_Shanahan)"
    by (rule at_Hoch_Shanahan) (simp add: Person_def)
  have s1: "arrive exact_floats ?a ?p (?e, \<lambda>n. 0)
              = (?e(Hoch_Shanahan := \<lparr>in_line = [0], eating = []\<rparr>), \<lambda>n. 0)"
    unfolding arrive_Some [OF h] by (simp add: line_wait_def)
  have s2: "arrive exact_floats ?a ?p (?e(Hoch_Shanahan := \<lparr>in_line = [0], eating = []\<rparr>), \<lambda>n. 0)
              = (?e(Hoch_Shanahan := \<lparr>in_line = [0, 1 / 2], eating = []\<rparr>), \<lambda>n. 0)"
    unfolding arrive_Some [OF h] by (simp add: line_wait_def)
  have f: "fold (arrive exact_floats ?a) [?p, ?p] (?e, \<lambda>n. 0)
              = (?e(Hoch_Shanahan := \<lparr>in_line = [0, 1 / 2], eating = []\<rparr>), \<lambda>n. 0)"
    by (simp only: fold_simps o_apply s1 s2 id_apply)
  have r: "filter (\<lambda>q. first_hall exact_floats q = Inr None) [?p, ?p] = []"
    by (simp only: filter.simps h sum.inject option.distinct if_False)
  have e: "enter_dining_halls exact_floats ?a [?p, ?p] ?e (\<lambda>n. 0)
   = Inr ([], ?e(Hoch_Shanahan := \<lparr>in_line = [0, 1 / 2], eating = []\<rparr>), \<lambda>n. 0)"
    by (simp only: enter_dining_halls_exact f r fst_conv snd_conv)
  from line_wait_on_arrival [OF e, rule_format, of Hoch_Shanahan]
  have "\<exists>added. [0, 1 / 2] = [] @ added
         \<and> (\<forall>j<length added. 0 \<le> added ! j \<and> added ! j \<le> 60
              \<and> (\<exists>k. added ! j = min (max (of_nat (0 + j) * of_int 30 + (\<lambda>n. 0 :: real) k * 10) 0 / 60) 60))"
    by simp
  with e show ?thesis by blast
qed

text \<open>
  Claim C9. The arrival test scans the whole catalog in its fixed order and never consults
  the opening hours: whenever the arrival step returns, a person whose first hall within
  100 meters is a closed hall has been removed from the outside people, and a wait has
  been pushed on the line of that closed hall.
\<close>

theorem arrival_ignores_opening_hours:
  assumes "p \<in> set ps" and "first_hall fl p = Inr (Some h)" and "\<not> is_open cm (DINING_HALLS h)"
    and "enter_dining_halls fl a ps halls g = Inr (ps', halls', g')"
  shows "ps' = filter (\<lambda>q. first_hall fl q = Inr None) ps
           \<and> p \<notin> set ps'
           \<and> length (in_line (halls' h))
               = length (in_line (halls h)) + length (filter (\<lambda>q. first_hall fl q = Inr (Some h)) ps)
           \<and> length (in_line (halls h)) < length (in_line (halls' h))"
proof -
  note scans = enter_dining_halls_returns [OF assms(4)]
  have eq: "ps' = filter (\<lambda>q. first_hall fl q = Inr None) ps"
    "halls' = fst (fold (arrive fl a) ps (halls, g))"
    using assms(4) enter_dining_halls_eq [OF scans, of a halls g] by simp_all
  have "filter (\<lambda>q. first_hall fl q = Inr (Some h)) ps \<noteq> []"
    using assms(1,2) by (auto simp: filter_empty_conv)
  then have "0 < length (filter (\<lambda>q. first_hall fl q = Inr (Some h)) ps)" by simp
  moreover have "p \<notin> set (filter (\<lambda>q. first_hall fl q = Inr None) ps)"
    using assms(2) by simp
  ultimately show ?thesis
    unfolding eq by (simp add: arrivals_counted)
qed

text \<open>A person at the coordinates of Hoch-Shanahan at 15:00, when it is closed.\<close>

theorem arrival_ignores_opening_hours_witness:
  "Person (34.10574, -117.70980) 1 \<in> set [Person (34.10574, -117.70980) 1]
   \<and> first_hall exact_floats (Person (34.10574, -117.70980) 1) = Inr (Some Hoch_Shanahan)
   \<and> \<not> is_open 900 (DINING_HALLS Hoch_Shanahan)
   \<and> enter_dining_halls exact_floats
        \<lparr>days = ''M'', time_interval = 60, eating_time = 3600, line_time = 30, walk_speed = 0.8\<rparr>
        [Person (34.10574, -117.70980) 1] (\<lambda>h. \<lparr>in_line = [], eating = []\<rparr>) (\<lambda>n. 0)
      = Inr ([], (\<lambda>h. \<lparr>in_line = [], eating = []\<rparr>)(Hoch_Shanahan := \<lparr>in_line = [0], eating = []\<rparr>),
             \<lambda>n. 0)
   \<and> Person (34.10574, -117.70980) 1 \<notin> set ([] :: person list)
   \<and> length ([] :: real list) < length [0 :: real]"
proof -
  let ?a = "\<lparr>days = ''M'', time_interval = 60, eating_time = 3600, line_time = 30, walk_speed = 0.8\<rparr>"
  let ?p = "Person (34.10574, -117.70980) 1"
  let ?e = "\<lambda>h::hall. \<lparr>in_line = [], eating = []\<rparr>"
  have m: "?p \<in> set [?p]" by simp
  have h: "first_hall exact_floats ?p = Inr (Some Hoch_Shanahan)"
    by (rule at_Hoch_Shanahan) (simp add: Person_def)
  have c: "\<not> is_open 900 (DINING_HALLS Hoch_Shanahan)" by (simp add: is_open_def)
  have s1: "arrive exact_floats ?a ?p (?e, \<lambda>n. 0)
              = (?e(Hoch_Shanahan := \<lparr>in_line = [0], eating = []\<rparr>), \<lambda>n. 0)"
    unfolding arrive_Some [OF h] by (simp add: line_wait_def)
  have f: "fold (arrive exact_floats ?a) [?p] (?e, \<lambda>n. 0)
              = (?e(Hoch_Shanahan := \<lparr>in_line = [0], eating = []\<rparr>), \<lambda>n. 0)"
    by (simp only: fold_simps o_apply s1 id_apply)
  have r: "filter (\<lambda>q. first_hall exact_floats q = Inr None) [?p] = []"
    by (simp only: filter.simps h sum.inject option.distinct if_False)
  have e: "enter_dining_halls exact_floats ?a [?p] ?e (\<lambda>n. 0)
      = Inr ([], ?e(Hoch_Shanahan := \<lparr>in_line = [0], eating = []\<rparr>), \<lambda>n. 0)"
    by (simp only: enter_dining_halls_exact f r fst_conv snd_conv)
  note t = arrival_ignores_opening_hours [OF m h c e]
  have n: "?p \<notin> set ([] :: person list)"
    by (rule t [THEN conjunct2, THEN conjunct1])
  have l: "length ([] :: real list) < length [0 :: real]"
    using t [THEN conjunct2, THEN conjunct2, THEN conjunct2] by simp
  from m h c e n l show ?thesis by blast
qed
subsection \<open>Spawning\<close>

lemma spawn_people_Suc:
  "spawn_people fl (Suc n) l a hs ps g =
     (case random_gauss (walk_speed a) 1 g of (x, g1) \<Rightarrow>
        if length hs = 0
        then spawn_people fl n l a hs (ps @ [Person l (max x 0.2)]) g1
        else (case choose_dest fl (Person l (max x 0.2)) hs g1 of
                Inl e \<Rightarrow> Inl e
              | Inr (p, g2) \<Rightarrow> spawn_people fl n l a hs (ps @ [p]) g2))"
proof -
  have u: "(ps @ [q])[length (ps @ [q]) - 1 := p] = ps @ [p]" for q p :: person
    by simp
  show ?thesis
    unfolding spawn_people.simps last_snoc u ..
qed

lemma spawn_people_length:
  "spawn_people fl n l a hs ps g = Inr (ps', g') \<Longrightarrow> length ps' = length ps + n \<and> take (length ps) ps' = ps"
proof (induction n arbitrary: ps g)
  case 0
  then show ?case by simp
next
  case (Suc n)
  show ?case
  proof (cases "length hs = 0")
    case True
    with Suc.prems have "spawn_people fl n l a hs (ps @ [Person l (max (walk_speed a + g 0 * 1) 0.2)]) (\<lambda>n. g (Suc n)) = Inr (ps', g')"
      by (simp add: random_gauss_def next_draw_def)
    from Suc.IH [OF this] show ?thesis
      by (auto simp: take_Suc_conv_app_nth dest: arg_cong [where f = "take (length ps)"])
  next
    case False
    with Suc.prems obtain p g2 where
      r: "spawn_people fl n l a hs (ps @ [p]) g2 = Inr (ps', g')"
      by (auto simp: random_gauss_def next_draw_def split: sum.splits)
    from Suc.IH [OF r] show ?thesis
      by (auto dest: arg_cong [where f = "take (length ps)"])
  qed
qed

lemma spawn_people_no_open:
  "\<exists>ps' g'. spawn_people fl n l a [] ps g = Inr (ps', g')"
  by (induction n arbitrary: ps g) (auto simp: random_gauss_def next_draw_def)

lemma int_of_float_floor: "0 \<le> x \<Longrightarrow> int_of_float x = \<lfloor>x\<rfloor>"
  by (simp add: int_of_float_def)

lemma int_of_float_neg: "x < 0 \<Longrightarrow> int_of_float x \<le> 0"
  by (simp add: int_of_float_def)

lemma conversion_rate_pos: "0 < conversion_rate_at cm"
  by (simp add: conversion_rate_at_def CONVERSION_RATE_def DINNER_CONVERSION_RATE_def)

text \<open>
  Claim C7. For a spawn event that is processed (its classroom resolves to a coordinate
  other than \<open>(0, 0)\<close> inside the bounding box), the number of persons created is
  \<open>floor (people * conversion_rate)\<close> when that product is not negative, and zero when the
  headcount is negative; the people already outside are kept.
\<close>

theorem spawn_count:
  assumes "ld (location_string course) = Some strs"
    and "convert_str_to_loc strs = Inr l"
    and "l \<noteq> (0, 0)" and "in_bounds l"
    and "spawn_course fl ld a cm hs course (ps, g) = Inr (ps', g')"
  shows "(0 \<le> of_int (people course) * conversion_rate_at cm \<longrightarrow>
            int (length ps') - int (length ps) = \<lfloor>of_int (people course) * conversion_rate_at cm\<rfloor>)
         \<and> (people course < 0 \<longrightarrow> length ps' = length ps)
         \<and> take (length ps) ps' = ps"
proof -
  let ?x = "of_int (people course) * conversion_rate_at cm :: real"
  have "spawn_people fl (nat (int_of_float ?x)) l a hs ps g = Inr (ps', g')"
    using assms by (simp add: spawn_course_def)
  from spawn_people_length [OF this]
  have len: "length ps' = length ps + nat (int_of_float ?x)" and pre: "take (length ps) ps' = ps"
    by simp_all
  have a: "int (length ps') - int (length ps) = \<lfloor>?x\<rfloor>" if "0 \<le> ?x"
    using len that by (simp add: int_of_float_floor)
  have b: "length ps' = length ps" if "people course < 0"
  proof -
    have "?x < 0" using that conversion_rate_pos [of cm] by (simp add: mult_neg_pos)
    then show ?thesis using len int_of_float_neg [of ?x] by simp
  qed
  from a b pre show ?thesis by blast
qed


theorem spawn_count_witness:
  "[''Pitzer-Lincoln'' \<mapsto> [''34.1'', ''-117.71'']] ''Pitzer-Lincoln'' = Some [''34.1'', ''-117.71'']
   \<and> convert_str_to_loc [''34.1'', ''-117.71''] = Inr (34.1, -117.71)
   \<and> (34.1, -117.71) \<noteq> (0 :: real, 0 :: real)
   \<and> in_bounds (34.1, -117.71)
   \<and> spawn_course exact_floats [''Pitzer-Lincoln'' \<mapsto> [''34.1'', ''-117.71'']]
        \<lparr>days = ''M'', time_interval = 60, eating_time = 3600, line_time = 30, walk_speed = 0.8\<rparr>
        900 []
        \<lparr>event_timing = \<lparr>timing_days = [''Tuesday''], start_time = ''13:15:00'', end_time = ''15:00:00'',
                           timing_location = \<lparr>school = ''Pitzer'', building = ''Lincoln'', room = ''1135''\<rparr>\<rparr>,
         location_string = ''Pitzer-Lincoln'', people = 24\<rparr>
        ([], \<lambda>n. 0)
      = Inr (replicate 9 (Person (34.1, -117.71) 0.8), \<lambda>n. 0)
   \<and> (0::real) \<le> of_int 24 * conversion_rate_at 900
   \<and> int (length (replicate 9 (Person (34.1, -117.71) 0.8))) - int (length ([] :: person list))
        = \<lfloor>of_int 24 * conversion_rate_at 900 :: real\<rfloor>
   \<and> spawn_course exact_floats [''Pitzer-Lincoln'' \<mapsto> [''34.1'', ''-117.71'']]
        \<lparr>days = ''M'', time_interval = 60, eating_time = 3600, line_time = 30, walk_speed = 0.8\<rparr>
        900 []
        \<lparr>event_timing = \<lparr>timing_days = [''Tuesday''], start_time = ''13:15:00'', end_time = ''15:00:00'',
                           timing_location = \<lparr>school = ''Pitzer'', building = ''Lincoln'', room = ''1135''\<rparr>\<rparr>,
         location_string = ''Pitzer-Lincoln'', people = - 4\<rparr>
        ([], \<lambda>n. 0)
      = Inr ([], \<lambda>n. 0)
   \<and> (- 4 :: int) < 0"
proof -
  let ?ld = "[''Pitzer-Lincoln'' \<mapsto> [''34.1'', ''-117.71'']]"
  let ?a = "\<lparr>days = ''M'', time_interval = 60, eating_time = 3600, line_time = 30, walk_speed = 0.8\<rparr>"
  let ?c = "\<lparr>event_timing = \<lparr>timing_days = [''Tuesday''], start_time = ''13:15:00'', end_time = ''15:00:00'',
                           timing_location = \<lparr>school = ''Pitzer'', building = ''Lincoln'', room = ''1135''\<rparr>\<rparr>,
         location_string = ''Pitzer-Lincoln'', people = 24\<rparr>"
  have h1: "?ld (location_string ?c) = Some [''34.1'', ''-117.71'']" by simp
  have h2: "convert_str_to_loc [''34.1'', ''-117.71''] = Inr (34.1, -117.71)" by code_simp
  have h3: "(34.1, -117.71) \<noteq> (0 :: real, 0 :: real)" by simp
  have h4: "in_bounds (34.1, -117.71)" by (simp add: in_bounds_def BOUNDING_BOX_def)
  have n: "nat (int_of_float (of_int 24 * conversion_rate_at 900)) = 9"
    by (simp add: int_of_float_def conversion_rate_at_def CONVERSION_RATE_def)
  have sp: "spawn_people exact_floats 9 (34.1, -117.71) ?a [] [] (\<lambda>n. 0)
              = Inr (replicate 9 (Person (34.1, -117.71) 0.8), \<lambda>n. 0)"
    by (simp add: eval_nat_numeral random_gauss_def next_draw_def)
  have h5: "spawn_course exact_floats ?ld ?a 900 [] ?c ([], \<lambda>n. 0)
              = Inr (replicate 9 (Person (34.1, -117.71) 0.8), \<lambda>n. 0)"
    unfolding spawn_course_def h1 option.case h2 sum.case
    using h3 h4 n sp by simp
  let ?d = "?c\<lparr>people := - 4\<rparr>"
  have k1: "?ld (location_string ?d) = Some [''34.1'', ''-117.71'']" by simp
  have m: "nat (int_of_float (of_int (- 4) * conversion_rate_at 900)) = 0"
    by (simp add: int_of_float_def conversion_rate_at_def CONVERSION_RATE_def)
  have k5: "spawn_course exact_floats ?ld ?a 900 [] ?d ([], \<lambda>n. 0) = Inr ([], \<lambda>n. 0)"
    unfolding spawn_course_def k1 option.case h2 sum.case
    using h3 h4 m by simp
  from spawn_count [OF h1 h2 h3 h4 h5] spawn_count [OF k1 h2 h3 h4 k5] h1 h2 h3 h4 h5 k5
  show ?thesis
    by (simp add: conversion_rate_at_def CONVERSION_RATE_def)
qed

subsection \<open>Whole ticks\<close>

lemma move_people_nobody: "move_people fl a hs i [] g = Inr ([], g)"
  by (subst move_people.simps) simp

lemma enter_dining_halls_nobody: "enter_dining_halls fl a [] halls g = Inr ([], halls, g)"
  by (simp add: enter_dining_halls_def)

lemma serve_hall_empty:
  "serve_hall a d \<lparr>in_line = [], eating = []\<rparr> g = Inr (\<lparr>in_line = [], eating = []\<rparr>, g)"
  by (simp add: serve_hall_eq serve_hall_spec_def fresh_eating_def)

lemma no_people_upd: "no_people(h := \<lparr>in_line = [], eating = []\<rparr>) = no_people"
  by (rule ext) (simp add: no_people_def)

lemma serve_halls_empty: "serve_halls a d hs (no_people, g) = Inr (no_people, g)"
proof (induction hs)
  case Nil
  show ?case by (simp add: serve_halls_def)
next
  case (Cons h hs)
  have "serve_hall a d (no_people h) g = Inr (\<lparr>in_line = [], eating = []\<rparr>, g)"
    by (simp add: no_people_def serve_hall_empty)
  then show ?case using Cons by (simp add: serve_halls_def no_people_upd)
qed

lemma empty_halls_eq: "empty_halls m = no_people"
proof (rule ext)
  fix h show "empty_halls m h = no_people h"
    by (cases h) (simp_all add: empty_halls_def DINING_HALLS_keys_def no_people_def)
qed

lemma tick_steps_quiet:
  assumes "outside_people s = []" and "people_in_dining_halls s = no_people"
    and "spawn_step fl (end_times s) (location_data s) (args s) (current_minute s)
           (filter (\<lambda>h. is_open (current_minute s) (DINING_HALLS h)) DINING_HALLS_keys) [] g = Inr ([], g1)"
    and "current_day s = Some d"
    and "log_append (sim_log s) d (snapshot (current_minute s) [] no_people) = Inr lg"
  shows "tick_steps fl s delta g = Inr (s\<lparr>sim_log := lg\<rparr>, g1)"
proof -
  have e: "s\<lparr>outside_people := [], people_in_dining_halls := no_people, sim_log := lg\<rparr> = s\<lparr>sim_log := lg\<rparr>"
    using assms(1,2) by (cases s) simp
  have sv: "serve_halls (args s) delta DINING_HALLS_keys (no_people, g1) = Inr (no_people, g1)"
    by (rule serve_halls_empty)
  show ?thesis
    unfolding tick_steps_def Let_def
    by (simp add: assms move_people_nobody enter_dining_halls_nobody sv e)
qed

lemma tick_steps_frame:
  assumes "tick_steps fl s delta g = Inr (s', g')"
  shows "current_minute s' = current_minute s \<and> current_day s' = current_day s \<and> args s' = args s
         \<and> end_times s' = end_times s \<and> location_data s' = location_data s
         \<and> (\<exists>d ps halls. current_day s = Some d
               \<and> log_append (sim_log s) d (snapshot (current_minute s) ps halls) = Inr (sim_log s')
               \<and> outside_people s' = ps \<and> people_in_dining_halls s' = halls)"
  using assms unfolding tick_steps_def Let_def
  by (auto split: sum.splits option.splits prod.splits)

lemma iterate_running:
  assumes "iterate fl s g = Inr (Some True, s', g')"
  shows "\<exists>s1. tick_steps fl s1 (of_int (time_interval (args s)) / 60) g = Inr (s', g')
           \<and> (if DAY_END_TIME \<le> current_minute s + of_int (time_interval (args s)) / 60
               then get_next_day (s\<lparr>current_minute := DAY_START_TIME\<rparr>) = Inr s1
               else s1 = s\<lparr>current_minute := current_minute s + of_int (time_interval (args s)) / 60\<rparr>)"
  using assms unfolding iterate_def Let_def
  by (auto split: sum.splits if_splits)

lemma get_next_day_frame:
  "get_next_day s = Inr s1 \<Longrightarrow>
     current_minute s1 = current_minute s \<and> args s1 = args s \<and> end_times s1 = end_times s
     \<and> location_data s1 = location_data s \<and> sim_log s1 = sim_log s
     \<and> outside_people s1 = [] \<and> people_in_dining_halls s1 = no_people
     \<and> (\<exists>d. current_day s = Some d
            \<and> current_day s1 = (if length (days (args s)) \<le> d + 1 then None else Some (d + 1)))"
  by (auto simp: get_next_day_def empty_halls_eq split: option.splits)

lemma iterate_frame:
  assumes "iterate fl s g = Inr (Some True, s', g')"
  shows "args s' = args s \<and> end_times s' = end_times s \<and> location_data s' = location_data s
         \<and> current_minute s' =
             (if DAY_END_TIME \<le> current_minute s + of_int (time_interval (args s)) / 60
              then DAY_START_TIME
              else current_minute s + of_int (time_interval (args s)) / 60)"
proof -
  from iterate_running [OF assms] obtain s1 where
    t: "tick_steps fl s1 (of_int (time_interval (args s)) / 60) g = Inr (s', g')"
    and c: "if DAY_END_TIME \<le> current_minute s + of_int (time_interval (args s)) / 60
            then get_next_day (s\<lparr>current_minute := DAY_START_TIME\<rparr>) = Inr s1
            else s1 = s\<lparr>current_minute := current_minute s + of_int (time_interval (args s)) / 60\<rparr>"
    by blast
  note f = tick_steps_frame [OF t]
  show ?thesis
  proof (cases "DAY_END_TIME \<le> current_minute s + of_int (time_interval (args s)) / 60")
    case True
    with c have "get_next_day (s\<lparr>current_minute := DAY_START_TIME\<rparr>) = Inr s1" by simp
    from get_next_day_frame [OF this] f True show ?thesis by simp
  next
    case False
    with c have "s1 = s\<lparr>current_minute := current_minute s + of_int (time_interval (args s)) / 60\<rparr>" by simp
    with f False show ?thesis by simp
  qed
qed

lemma reachable_frame:
  "reachable fl et ld a n s g \<Longrightarrow> args s = a \<and> end_times s = et \<and> location_data s = ld"
proof (induction rule: reachable.induct)
  case (initial fl et ld a seed)
  show ?case by (simp add: SimState_def)
next
  case (tick fl et ld a n s g s' g')
  with iterate_frame [OF tick.hyps(2)] show ?case by simp
qed

text \<open>
  Claim C4, as amended. In every state the driver loop reaches with a tick interval that
  is not negative, \<open>DAY_START_TIME - 1 \<le> current_minute < DAY_END_TIME\<close>; after at least
  one tick with an interval of at least 60 seconds, \<open>DAY_START_TIME \<le> current_minute\<close>.
\<close>

theorem current_minute_range:
  assumes "reachable fl et ld a n s g" and "0 \<le> time_interval a"
  shows "DAY_START_TIME - 1 \<le> current_minute s \<and> current_minute s < DAY_END_TIME
         \<and> (0 < n \<and> 60 \<le> time_interval a \<longrightarrow> DAY_START_TIME \<le> current_minute s)"
  using assms
proof (induction rule: reachable.induct)
  case (initial fl et ld a seed)
  show ?case by (simp add: SimState_def DAY_START_TIME_def DAY_END_TIME_def)
next
  case (tick fl et ld a n s g s' g')
  have a: "args s = a" using reachable_frame [OF tick.hyps(1)] by simp
  have ih: "DAY_START_TIME - 1 \<le> current_minute s" "current_minute s < DAY_END_TIME"
    using tick.IH [OF tick.prems] by simp_all
  have d: "0 \<le> (of_int (time_interval a) :: real) / 60" using tick.prems by simp
  have d1: "1 \<le> (of_int (time_interval a) :: real) / 60" if "60 \<le> time_interval a"
    using that by simp
  have m: "current_minute s' =
             (if DAY_END_TIME \<le> current_minute s + of_int (time_interval a) / 60
              then DAY_START_TIME
              else current_minute s + of_int (time_interval a) / 60)"
    using iterate_frame [OF tick.hyps(2)] a by simp
  show ?case
  proof (cases "DAY_END_TIME \<le> current_minute s + of_int (time_interval a) / 60")
    case True
    then show ?thesis using m by (simp add: DAY_START_TIME_def DAY_END_TIME_def)
  next
    case False
    then have "current_minute s' = current_minute s + of_int (time_interval a) / 60" using m by simp
    then show ?thesis using False ih d d1 by auto
  qed
qed


lemma iterate_quiet:
  assumes "outside_people s = []" and "people_in_dining_halls s = no_people"
    and "current_day s = Some d"
    and "cm' = current_minute s + of_int (time_interval (args s)) / 60"
    and "cm' < DAY_END_TIME"
    and "spawn_step fl (end_times s) (location_data s) (args s) cm'
           (filter (\<lambda>h. is_open cm' (DINING_HALLS h)) DINING_HALLS_keys) [] g = Inr ([], g1)"
    and "log_append (sim_log s) d (snapshot cm' [] no_people) = Inr lg"
  shows "iterate fl s g = Inr (Some True, s\<lparr>current_minute := cm', sim_log := lg\<rparr>, g1)"
proof -
  have "tick_steps fl (s\<lparr>current_minute := cm'\<rparr>) (cm' - current_minute s) g
          = Inr (s\<lparr>current_minute := cm', sim_log := lg\<rparr>, g1)"
    using assms by (intro tick_steps_quiet [where d = d]) simp_all
  then show ?thesis
    using assms(4,5) unfolding iterate_def Let_def by simp
qed

lemma iterate_rollover_quiet:
  assumes "current_day s = Some d" and "Suc d < length (days (args s))"
    and "DAY_END_TIME \<le> current_minute s + of_int (time_interval (args s)) / 60"
    and "spawn_step fl (end_times s) (location_data s) (args s) DAY_START_TIME
           (filter (\<lambda>h. is_open DAY_START_TIME (DINING_HALLS h)) DINING_HALLS_keys) [] g = Inr ([], g1)"
    and "log_append (sim_log s) (Suc d) (snapshot DAY_START_TIME [] no_people) = Inr lg"
  shows "iterate fl s g = Inr (Some True,
           s\<lparr>current_minute := DAY_START_TIME, current_day := Some (Suc d), outside_people := [],
              people_in_dining_halls := no_people, sim_log := lg\<rparr>, g1)"
proof -
  let ?s1 = "s\<lparr>current_minute := DAY_START_TIME, current_day := Some (Suc d), outside_people := [],
              people_in_dining_halls := no_people\<rparr>"
  have n: "get_next_day (s\<lparr>current_minute := DAY_START_TIME\<rparr>) = Inr ?s1"
    using assms(1,2) by (simp add: get_next_day_def empty_halls_eq)
  have "tick_steps fl ?s1 (current_minute s + of_int (time_interval (args s)) / 60 - current_minute s) g
          = Inr (?s1\<lparr>sim_log := lg\<rparr>, g1)"
    using assms by (intro tick_steps_quiet [where d = "Suc d"]) simp_all
  then show ?thesis
    using assms(3) n unfolding iterate_def Let_def by simp
qed

lemma spawn_step_no_schedule: "spawn_step fl [] ld a cm hs ps g = Inr (ps, g)"
  by (simp add: spawn_step_def end_times_at_def)

text \<open>
  Claim C4 as stated fails in the initial state: before the first tick the minute is
  \<open>DAY_START_TIME - 1 = 419\<close>, outside \<open>[DAY_START_TIME, DAY_END_TIME)\<close>.
\<close>

theorem initial_minute_before_day_start:
  "reachable exact_floats [] Map.empty
     \<lparr>days = ''MTWRF'', time_interval = 60, eating_time = 3600, line_time = 30, walk_speed = 0.8\<rparr> 0
     (SimState [] Map.empty
        \<lparr>days = ''MTWRF'', time_interval = 60, eating_time = 3600, line_time = 30, walk_speed = 0.8\<rparr>)
     (\<lambda>n. 0)
   \<and> current_day (SimState [] Map.empty
        \<lparr>days = ''MTWRF'', time_interval = 60, eating_time = 3600, line_time = 30, walk_speed = 0.8\<rparr>)
       = Some 0
   \<and> current_minute (SimState [] Map.empty
        \<lparr>days = ''MTWRF'', time_interval = 60, eating_time = 3600, line_time = 30, walk_speed = 0.8\<rparr>)
       = 419
   \<and> \<not> DAY_START_TIME \<le> current_minute (SimState [] Map.empty
        \<lparr>days = ''MTWRF'', time_interval = 60, eating_time = 3600, line_time = 30, walk_speed = 0.8\<rparr>)"
  by (simp add: reachable.initial) (simp add: SimState_def DAY_START_TIME_def)

theorem current_minute_range_witness:
  "reachable exact_floats [] Map.empty
     \<lparr>days = ''MTWRF'', time_interval = 60, eating_time = 3600, line_time = 30, walk_speed = 0.8\<rparr> 1
     ((SimState [] Map.empty
        \<lparr>days = ''MTWRF'', time_interval = 60, eating_time = 3600, line_time = 30, walk_speed = 0.8\<rparr>)
       \<lparr>current_minute := 420, sim_log := [[snapshot 420 [] no_people]]\<rparr>)
     (\<lambda>n. 0)
   \<and> (0::int) \<le> 60 \<and> (0::nat) < 1 \<and> (60::int) \<le> 60
   \<and> DAY_START_TIME - 1 \<le> (420::real) \<and> (420::real) < DAY_END_TIME \<and> DAY_START_TIME \<le> (420::real)"
proof -
  let ?a = "\<lparr>days = ''MTWRF'', time_interval = 60, eating_time = 3600, line_time = 30, walk_speed = 0.8\<rparr>"
  let ?s0 = "SimState [] Map.empty ?a"
  let ?s1 = "?s0\<lparr>current_minute := 420, sim_log := [[snapshot 420 [] no_people]]\<rparr>"
  have r0: "reachable exact_floats [] Map.empty ?a 0 ?s0 (\<lambda>n. 0)" by (rule reachable.initial)
  have i: "iterate exact_floats ?s0 (\<lambda>n. 0) = Inr (Some True, ?s1, \<lambda>n. 0)"
    by (rule iterate_quiet [where d = 0])
       (simp_all add: SimState_def empty_halls_eq spawn_step_no_schedule log_append_def
          DAY_START_TIME_def DAY_END_TIME_def)
  have r1: "reachable exact_floats [] Map.empty ?a 1 ?s1 (\<lambda>n. 0)"
    using reachable.tick [OF r0 i] by simp
  from current_minute_range [OF r1] r1 show ?thesis
    by (simp add: DAY_START_TIME_def DAY_END_TIME_def)
qed

lemma log_append_length:
  "log_append lg d e = Inr lg' \<Longrightarrow>
     (d = length lg \<and> lg' = lg @ [[e]]) \<or> (d < length lg \<and> lg' = lg[d := lg ! d @ [e]])"
  by (auto simp: log_append_def Let_def split: if_splits)

lemma log_append_new: "log_append lg (length lg) e = Inr (lg @ [[e]])"
  by (simp add: log_append_def Let_def nth_append list_update_append)

lemma reachable_log:
  "reachable fl et ld a n s g \<Longrightarrow>
     \<exists>d. current_day s = Some d \<and> (if n = 0 then d = 0 \<and> sim_log s = [] else length (sim_log s) = Suc d)"
proof (induction rule: reachable.induct)
  case (initial fl et ld a seed)
  show ?case by (simp add: SimState_def)
next
  case (tick fl et ld a n s g s' g')
  from tick.IH obtain d where d: "current_day s = Some d"
    and l: "if n = 0 then d = 0 \<and> sim_log s = [] else length (sim_log s) = Suc d" by blast
  from iterate_running [OF tick.hyps(2)] obtain s1 where
    t: "tick_steps fl s1 (of_int (time_interval (args s)) / 60) g = Inr (s', g')"
    and c: "if DAY_END_TIME \<le> current_minute s + of_int (time_interval (args s)) / 60
            then get_next_day (s\<lparr>current_minute := DAY_START_TIME\<rparr>) = Inr s1
            else s1 = s\<lparr>current_minute := current_minute s + of_int (time_interval (args s)) / 60\<rparr>"
    by blast
  from tick_steps_frame [OF t] obtain d1 e where
    d1: "current_day s1 = Some d1" "current_day s' = Some d1"
    and la: "log_append (sim_log s1) d1 e = Inr (sim_log s')"
    by auto
  have s1: "sim_log s1 = sim_log s \<and> (d1 = d \<or> d1 = Suc d \<and> DAY_END_TIME \<le> current_minute s + of_int (time_interval (args s)) / 60)"
  proof (cases "DAY_END_TIME \<le> current_minute s + of_int (time_interval (args s)) / 60")
    case True
    with c have "get_next_day (s\<lparr>current_minute := DAY_START_TIME\<rparr>) = Inr s1" by simp
    from get_next_day_frame [OF this] d d1 True show ?thesis by (auto split: if_splits)
  next
    case False
    with c d d1 show ?thesis by simp
  qed
  from log_append_length [OF la] s1 l have "length (sim_log s') = Suc d1"
    by (cases "n = 0") auto
  with d1 show ?case by simp
qed

text \<open>
  Claim C2, as amended. Take a tick after the first of a run in which the clock advance
  makes the minute reach \<open>DAY_END_TIME\<close> while the day list is not exhausted. If the tick
  does not raise, it returns \<^verbatim>\<open>True\<close>, the day index is one larger, the minute is
  \<open>DAY_START_TIME\<close>, and the snapshot appended is the first of the new day's log, with
  minute \<open>DAY_START_TIME\<close> and the counts of the people that the steps of this very tick,
  run at minute \<open>DAY_START_TIME\<close> on the emptied state, have left outside and in the
  halls. When the spawning step of that tick creates no person, the tick does not raise,
  nobody is outside or in a hall after it, and the snapshot has outside count 0 and in-line
  and eating counts 0 for every hall.
\<close>

theorem day_rollover:
  assumes "reachable fl et ld a (Suc n) s g"
    and "DAY_END_TIME \<le> current_minute s + of_int (time_interval a) / 60"
    and "current_day s = Some d" and "Suc d < length (days a)"
  shows "(\<forall>r s' g'. iterate fl s g = Inr (r, s', g') \<longrightarrow>
            r = Some True \<and> current_day s' = Some (Suc d) \<and> current_minute s' = DAY_START_TIME
            \<and> sim_log s' = sim_log s @ [[\<lparr>minute = DAY_START_TIME,
                  outside = length (outside_people s'),
                  hall_counts = map (\<lambda>h. (h, length (in_line (people_in_dining_halls s' h)),
                                           length (eating (people_in_dining_halls s' h))))
                                    DINING_HALLS_keys\<rparr>]])
         \<and> (\<forall>g1. spawn_step fl et ld a DAY_START_TIME
                   (filter (\<lambda>h. is_open DAY_START_TIME (DINING_HALLS h)) DINING_HALLS_keys) [] g
                 = Inr ([], g1) \<longrightarrow>
               (\<exists>s'. iterate fl s g = Inr (Some True, s', g1)
                  \<and> outside_people s' = [] \<and> people_in_dining_halls s' = no_people
                  \<and> sim_log s' = sim_log s @ [[\<lparr>minute = DAY_START_TIME, outside = 0,
                        hall_counts = map (\<lambda>h. (h, 0, 0)) DINING_HALLS_keys\<rparr>]]))"
proof (intro conjI allI impI)
  have f: "args s = a" "end_times s = et" "location_data s = ld"
    using reachable_frame [OF assms(1)] by simp_all
  have l: "length (sim_log s) = Suc d"
    using reachable_log [OF assms(1)] assms(3) by simp
  let ?s1 = "s\<lparr>current_minute := DAY_START_TIME, current_day := Some (Suc d), outside_people := [],
              people_in_dining_halls := no_people\<rparr>"
  have nd: "get_next_day (s\<lparr>current_minute := DAY_START_TIME\<rparr>) = Inr ?s1"
    using assms(3,4) f(1) by (simp add: get_next_day_def empty_halls_eq)
  {
    fix r s' g'
    assume i: "iterate fl s g = Inr (r, s', g')"
    have t: "tick_steps fl ?s1 (of_int (time_interval a) / 60) g = Inr (s', g')" and r: "r = Some True"
      using i assms(2) nd f(1) unfolding iterate_def Let_def
      by (auto split: sum.splits)
    from tick_steps_frame [OF t] obtain d1 ps halls where
      m: "current_minute s' = DAY_START_TIME" and c: "current_day s' = Some (Suc d)"
      and d1: "Some (Suc d) = Some d1"
      and la: "log_append (sim_log s) d1 (snapshot DAY_START_TIME ps halls) = Inr (sim_log s')"
      and o: "outside_people s' = ps" "people_in_dining_halls s' = halls"
      by auto
    have "sim_log s' = sim_log s @ [[snapshot DAY_START_TIME ps halls]]"
      using log_append_length [OF la] d1 l by auto
    then have lg: "sim_log s' = sim_log s @ [[\<lparr>minute = DAY_START_TIME,
                  outside = length (outside_people s'),
                  hall_counts = map (\<lambda>h. (h, length (in_line (people_in_dining_halls s' h)),
                                           length (eating (people_in_dining_halls s' h))))
                                    DINING_HALLS_keys\<rparr>]]"
      unfolding o snapshot_def .
    show "r = Some True" by (rule r)
    show "current_day s' = Some (Suc d)" by (rule c)
    show "current_minute s' = DAY_START_TIME" by (rule m)
    show "sim_log s' = sim_log s @ [[\<lparr>minute = DAY_START_TIME,
                  outside = length (outside_people s'),
                  hall_counts = map (\<lambda>h. (h, length (in_line (people_in_dining_halls s' h)),
                                           length (eating (people_in_dining_halls s' h))))
                                    DINING_HALLS_keys\<rparr>]]"
      by (rule lg)
  }
  fix g1
  assume sp: "spawn_step fl et ld a DAY_START_TIME
                (filter (\<lambda>h. is_open DAY_START_TIME (DINING_HALLS h)) DINING_HALLS_keys) [] g
              = Inr ([], g1)"
  have sn: "snapshot DAY_START_TIME [] no_people
              = \<lparr>minute = DAY_START_TIME, outside = 0, hall_counts = map (\<lambda>h. (h, 0, 0)) DINING_HALLS_keys\<rparr>"
    by (simp add: snapshot_def no_people_def)
  have la: "log_append (sim_log s) (Suc d) (snapshot DAY_START_TIME [] no_people)
              = Inr (sim_log s @ [[snapshot DAY_START_TIME [] no_people]])"
    using log_append_new [of "sim_log s"] l by simp
  have "iterate fl s g = Inr (Some True,
           s\<lparr>current_minute := DAY_START_TIME, current_day := Some (Suc d), outside_people := [],
              people_in_dining_halls := no_people,
              sim_log := sim_log s @ [[snapshot DAY_START_TIME [] no_people]]\<rparr>, g1)"
    using assms sp f by (intro iterate_rollover_quiet la) simp_all
  then show "\<exists>s'. iterate fl s g = Inr (Some True, s', g1)
                  \<and> outside_people s' = [] \<and> people_in_dining_halls s' = no_people
                  \<and> sim_log s' = sim_log s @ [[\<lparr>minute = DAY_START_TIME, outside = 0,
                        hall_counts = map (\<lambda>h. (h, 0, 0)) DINING_HALLS_keys\<rparr>]]"
    unfolding sn by simp
qed
subsection \<open>Walking north along a meridian\<close>

lemma degrees_radians: "degrees (radians x) = x"
  by (simp add: degrees_def radians_def)

lemma move_towards_fast_exact:
  "move_towards_fast exact_floats self delta_meters =
     (case destination self of
        None \<Rightarrow> Inl KeyError
      | Some d \<Rightarrow>
         (let R = 6371 * 10 ^ 3;
              current_lat = radians (fst (loc self));
              current_lon = radians (snd (loc self));
              destination_lat = radians (fst (location (DINING_HALLS d)));
              destination_lon = radians (snd (location (DINING_HALLS d)));
              delta = delta_meters / R;
              dlon = destination_lon - current_lon;
              y = sin dlon * cos destination_lat;
              x = cos current_lat * sin destination_lat
                  - sin current_lat * cos destination_lat * cos dlon;
              bearing = atan2 y x
          in case math_asin exact_floats (sin current_lat * cos delta
                                          + cos current_lat * sin delta * cos bearing) of
               Inl e \<Rightarrow> Inl e
             | Inr lat \<Rightarrow>
                (let lon = current_lon
                           + atan2 (sin bearing * sin delta * cos current_lat)
                                   (cos delta - sin current_lat * sin lat)
                 in case float_mod exact_floats (lon + 3 * pi) (2 * pi) of
                      Inl e \<Rightarrow> Inl e
                    | Inr m \<Rightarrow> Inr (self\<lparr>loc := (degrees lat, degrees (m - pi))\<rparr>))))"
  unfolding move_towards_fast_def exact_arith math_radians_exact math_degrees_exact ..

lemma move_towards_fast_north:
  assumes "destination p = Some h"
    and "snd (loc p) = snd (location (DINING_HALLS h))"
    and "radians (fst (loc p)) < radians (fst (location (DINING_HALLS h)))"
    and "radians (fst (location (DINING_HALLS h))) - radians (fst (loc p)) < pi"
    and "- (pi / 2) < radians (fst (loc p))"
    and "0 \<le> dm"
    and "radians (fst (loc p)) + dm / (6371 * 10 ^ 3) < pi / 2"
    and "- 180 \<le> snd (loc p)" and "snd (loc p) < 180"
  shows "move_towards_fast exact_floats p dm
           = Inr (p\<lparr>loc := (degrees (radians (fst (loc p)) + dm / (6371 * 10 ^ 3)), snd (loc p))\<rparr>)"
proof -
  let ?cur = "radians (fst (loc p))"
  let ?dst = "radians (fst (location (DINING_HALLS h)))"
  let ?lon = "radians (snd (loc p))"
  let ?delta = "dm / (6371 * 10 ^ 3)"
  have dlon: "radians (snd (location (DINING_HALLS h))) - ?lon = 0" using assms(2) by simp
  have x: "cos ?cur * sin ?dst - sin ?cur * cos ?dst * cos 0 = sin (?dst - ?cur)"
    by (simp add: sin_diff)
  have xpos: "0 < sin (?dst - ?cur)" using assms(3,4) by (intro sin_gt_zero) simp_all
  have bearing: "atan2 (sin 0 * cos ?dst) (sin (?dst - ?cur)) = 0"
    using xpos by (simp add: atan2_def)
  have d0: "0 \<le> ?delta" using assms(6) by simp
  have s: "sin ?cur * cos ?delta + cos ?cur * sin ?delta * cos 0 = sin (?cur + ?delta)"
    by (simp add: sin_add)
  have lat: "math_asin exact_floats (sin (?cur + ?delta)) = Inr (?cur + ?delta)"
  proof -
    have "- (pi / 2) \<le> ?cur + ?delta" "?cur + ?delta \<le> pi / 2"
      using assms(5,7) d0 by linarith+
    then have "arcsin (sin (?cur + ?delta)) = ?cur + ?delta" by (rule arcsin_sin)
    then show ?thesis
      using sin_ge_minus_one [of "?cur + ?delta"] sin_le_one [of "?cur + ?delta"]
      by (simp add: math_asin_exact not_less)
  qed
  have x2: "cos ?delta - sin ?cur * sin (?cur + ?delta) = cos (?cur + ?delta) * cos ?cur"
  proof -
    have "cos ?delta = cos ((?cur + ?delta) - ?cur)" by simp
    also have "\<dots> = cos (?cur + ?delta) * cos ?cur + sin (?cur + ?delta) * sin ?cur"
      by (rule cos_diff)
    finally show ?thesis by simp
  qed
  have x2pos: "0 < cos (?cur + ?delta) * cos ?cur"
  proof -
    have "0 < cos ?cur" using assms(5,7) d0 by (intro cos_gt_zero_pi) linarith+
    moreover have "0 < cos (?cur + ?delta)" using assms(5,7) d0 by (intro cos_gt_zero_pi) linarith+
    ultimately show ?thesis by simp
  qed
  have lon_step: "atan2 (sin 0 * sin ?delta * cos ?cur) (cos (?cur + ?delta) * cos ?cur) = 0"
    using x2pos by (simp add: atan2_def)
  have fl: "\<lfloor>(?lon + 3 * pi) / (2 * pi)\<rfloor> = 1"
  proof -
    have "(- 180) * pi \<le> snd (loc p) * pi"
      using assms(8) by (intro mult_right_mono) simp_all
    moreover have "snd (loc p) * pi < 180 * pi"
      using assms(9) by (intro mult_strict_right_mono) simp_all
    ultimately have "- pi \<le> ?lon" "?lon < pi" by (simp_all add: radians_def)
    then have "2 * pi \<le> ?lon + 3 * pi" "?lon + 3 * pi < 4 * pi" by linarith+
    then have "1 \<le> (?lon + 3 * pi) / (2 * pi)" "(?lon + 3 * pi) / (2 * pi) < 2"
      by (simp_all add: field_simps)
    then show ?thesis by linarith
  qed
  have md: "float_mod exact_floats (?lon + 3 * pi) (2 * pi) = Inr (?lon + pi)"
    by (simp add: float_mod_exact fl)
  show ?thesis
    unfolding move_towards_fast_exact Let_def assms(1) option.case dlon x bearing s lat sum.case
      x2 lon_step
    by (simp add: md degrees_radians)
qed

subsection \<open>A class that ends at the start of the day\<close>

lemma seven_am_end_times: "build_end_times seven_am_courses = Inr [(420, [seven_am_event])]"
  unfolding seven_am_courses_def seven_am_event_def by code_simp

lemma quiet_spawn:
  "cm = of_int k \<Longrightarrow> k \<noteq> 420 \<Longrightarrow> spawn_step exact_floats [(420, [seven_am_event])] ld a cm hs ps g = Inr (ps, g)"
  by (simp add: spawn_step_def end_times_at_def)

lemma quiet_reachable:
  "n \<le> 450 \<Longrightarrow>
     reachable exact_floats [(420, [seven_am_event])] seven_am_locations two_minute_args n (quiet_state n) (\<lambda>n. 0)"
proof (induction n)
  case 0
  have "quiet_state 0 = SimState [(420, [seven_am_event])] seven_am_locations two_minute_args"
    by (simp add: quiet_state_def SimState_def DAY_START_TIME_def)
  then show ?case by (simp add: reachable.initial)
next
  case (Suc n)
  then have r: "reachable exact_floats [(420, [seven_am_event])] seven_am_locations two_minute_args n
                  (quiet_state n) (\<lambda>n. 0)" and n: "n < 450" by simp_all
  let ?cm = "421 + 2 * real n"
  let ?lg = "[map (\<lambda>k. snapshot (421 + 2 * of_nat k) [] no_people) [0..<Suc n]]"
  have cm: "?cm = of_int (421 + 2 * int n)" by simp
  have ne: "421 + 2 * int n \<noteq> 420" by presburger
  have sp: "spawn_step exact_floats (end_times (quiet_state n)) (location_data (quiet_state n)) (args (quiet_state n)) ?cm
           (filter (\<lambda>h. is_open ?cm (DINING_HALLS h)) DINING_HALLS_keys) [] (\<lambda>n. 0) = Inr ([], \<lambda>n. 0)"
    unfolding quiet_state_def SimState_def using quiet_spawn [OF cm ne] by simp
  have la: "log_append (sim_log (quiet_state n)) 0 (snapshot ?cm [] no_people) = Inr ?lg"
    by (simp add: quiet_state_def log_append_def)
  have i: "iterate exact_floats (quiet_state n) (\<lambda>n. 0)
             = Inr (Some True, (quiet_state n)\<lparr>current_minute := ?cm, sim_log := ?lg\<rparr>, \<lambda>n. 0)"
  proof (rule iterate_quiet [where d = 0])
    show "outside_people (quiet_state n) = []" by (simp add: quiet_state_def SimState_def)
    show "people_in_dining_halls (quiet_state n) = no_people"
      by (simp add: quiet_state_def SimState_def empty_halls_eq)
    show "current_day (quiet_state n) = Some 0" by (simp add: quiet_state_def SimState_def)
    show "?cm = current_minute (quiet_state n) + of_int (time_interval (args (quiet_state n))) / 60"
      by (simp add: quiet_state_def SimState_def two_minute_args_def DAY_START_TIME_def)
    show "?cm < DAY_END_TIME" using n by (simp add: DAY_END_TIME_def)
    show "spawn_step exact_floats (end_times (quiet_state n)) (location_data (quiet_state n)) (args (quiet_state n)) ?cm
           (filter (\<lambda>h. is_open ?cm (DINING_HALLS h)) DINING_HALLS_keys) [] (\<lambda>n. 0) = Inr ([], \<lambda>n. 0)"
      by (rule sp)
    show "log_append (sim_log (quiet_state n)) 0 (snapshot ?cm [] no_people) = Inr ?lg" by (rule la)
  qed
  have e: "(quiet_state n)\<lparr>current_minute := ?cm, sim_log := ?lg\<rparr> = quiet_state (Suc n)"
    by (simp add: quiet_state_def algebra_simps)
  show ?case using reachable.tick [OF r i] unfolding e .
qed

lemma radians_degrees: "radians (degrees x) = x"
  by (simp add: degrees_def radians_def)

lemma radians_diff: "radians x - radians y = radians (x - y)"
  by (simp add: radians_def algebra_simps diff_divide_distrib)

text \<open>The classroom is 0.0008 degrees of latitude south of Hoch-Shanahan: between 56 and
  114 meters, whatever the digits of \<open>pi\<close> beyond \<open>2 \<le> pi < 4\<close>.\<close>

lemma gap_meters: "56 \<le> pi / 225000 * 6371 * 10 ^ 3" "pi / 225000 * 6371 * 10 ^ 3 \<le> 114"
  using pi_ge_two pi_less_4 by simp_all

lemma spawned_distance:
  "get_distance exact_floats (Person (34.10494, -117.70980) 0.8) (location (DINING_HALLS Hoch_Shanahan))
     = Inr (pi / 225000 * 6371 * 10 ^ 3)"
proof -
  let ?p = "Person (34.10494, -117.70980) 0.8"
  let ?l = "location (DINING_HALLS Hoch_Shanahan)"
  have e: "radians (fst ?l) - radians (fst (loc ?p)) = pi / 225000"
    by (simp add: Person_def radians_def)
  have a: "\<bar>pi / 225000\<bar> = pi / 225000" by simp
  have "snd (loc ?p) = snd ?l" by (simp add: Person_def)
  moreover have "\<bar>radians (fst ?l) - radians (fst (loc ?p))\<bar> \<le> pi"
    unfolding e by simp
  ultimately have "get_distance exact_floats ?p ?l = Inr (\<bar>radians (fst ?l) - radians (fst (loc ?p))\<bar> * 6371 * 10 ^ 3)"
    by (rule get_distance_meridian)
  then show ?thesis unfolding e a .
qed

lemma spawned_dest:
  "choose_dest exact_floats (Person (34.10494, -117.70980) 0.8) [Hoch_Shanahan] (\<lambda>n. 0) = Inr (spawned, \<lambda>n. 0)"
proof -
  have "0 < pi / 225000 * 6371 * 10 ^ 3" by simp
  from choose_dest_single [OF spawned_distance this, of "\<lambda>n. 0"]
  show ?thesis by (simp add: Person_def spawned_def)
qed

lemma spawned_walks: "move_towards_fast exact_floats spawned 96 = Inr walked"
proof -
  let ?l = "location (DINING_HALLS Hoch_Shanahan)"
  have e: "radians (fst ?l) - radians (fst (loc spawned)) = pi / 225000"
    by (simp add: spawned_def radians_def)
  have r: "radians (fst (loc spawned)) = 1705247 * pi / 9000000"
    by (simp add: spawned_def radians_def)
  have a3: "radians (fst (loc spawned)) < radians (fst ?l)"
  proof -
    have "0 < pi / 225000" by simp
    then show ?thesis using e by linarith
  qed
  have a4: "radians (fst ?l) - radians (fst (loc spawned)) < pi"
    unfolding e by simp
  have a5: "- (pi / 2) < radians (fst (loc spawned))"
    unfolding r using pi_gt_zero by simp
  have a7: "radians (fst (loc spawned)) + 96 / (6371 * 10 ^ 3) < pi / 2"
  proof -
    have "(96 :: real) / (6371 * 10 ^ 3) < 1 / 2" by simp
    moreover have "1 / 2 \<le> pi / 2 - 1705247 * pi / 9000000" using pi_ge_two by simp
    ultimately show ?thesis unfolding r by linarith
  qed
  have "move_towards_fast exact_floats spawned 96
          = Inr (spawned\<lparr>loc := (degrees (radians (fst (loc spawned)) + 96 / (6371 * 10 ^ 3)), snd (loc spawned))\<rparr>)"
    by (rule move_towards_fast_north [OF _ _ a3 a4 a5 _ a7]) (simp_all add: spawned_def)
  then show ?thesis by (simp add: walked_def spawned_def)
qed

lemma abs_meters: "\<bar>y * 6371 * 10 ^ 3\<bar> = \<bar>y\<bar> * 6371 * 10 ^ 3" for y :: real
  by (simp add: abs_mult)

lemma walked_arrives: "first_hall exact_floats walked = Inr (Some Hoch_Shanahan)"
proof -
  let ?l = "location (DINING_HALLS Hoch_Shanahan)"
  let ?x = "radians (fst ?l) - radians (fst (loc walked))"
  have rd: "radians (fst (loc walked)) = radians 34.10494 + 96 / (6371 * 10 ^ 3)"
    by (simp add: walked_def radians_degrees)
  have x: "?x = pi / 225000 - 96 / (6371 * 10 ^ 3)"
    unfolding rd by (simp add: radians_def)
  have m: "?x * 6371 * 10 ^ 3 = pi / 225000 * 6371 * 10 ^ 3 - 96"
    unfolding x by (simp add: algebra_simps)
  have b: "\<bar>?x * 6371 * 10 ^ 3\<bar> \<le> 100"
    unfolding m using gap_meters by (simp add: abs_le_iff)
  have b': "\<bar>?x\<bar> * 6371 * 10 ^ 3 \<le> 100"
    using b unfolding abs_meters [of ?x] .
  have xs: "\<bar>?x\<bar> \<le> pi"
  proof -
    have "\<bar>?x\<bar> * 1 \<le> \<bar>?x\<bar> * (6371 * 10 ^ 3)" by (intro mult_left_mono) simp_all
    then have "\<bar>?x\<bar> \<le> 100" using b' by simp
    have "\<bar>?x\<bar> * 50 \<le> \<bar>?x\<bar> * (6371 * 10 ^ 3)" by (intro mult_left_mono) simp_all
    then have "\<bar>?x\<bar> * 50 \<le> 100" using b' by simp
    then have "\<bar>?x\<bar> \<le> 2" by simp
    then show ?thesis using pi_ge_two by linarith
  qed
  have "snd (loc walked) = snd ?l" by (simp add: walked_def)
  then have d: "get_distance exact_floats walked ?l = Inr (\<bar>?x\<bar> * 6371 * 10 ^ 3)"
    using xs by (rule get_distance_meridian)
  have "in_dining_hall exact_floats walked Hoch_Shanahan = Inr True"
    unfolding in_dining_hall_def d using b' by simp
  then show ?thesis by (simp add: first_hall_def DINING_HALLS_keys_def)
qed

lemma seven_am_spawn:
  "spawn_step exact_floats [(420, [seven_am_event])] seven_am_locations two_minute_args 420 [Hoch_Shanahan] [] (\<lambda>n. 0)
     = Inr ([spawned], \<lambda>n. 0)"
proof -
  have l: "seven_am_locations (location_string seven_am_event) = Some [''34.10494'', ''-117.70980'']"
    by (simp add: seven_am_locations_def seven_am_event_def)
  have c: "convert_str_to_loc [''34.10494'', ''-117.70980''] = Inr (34.10494, -117.70980)"
    by code_simp
  have b: "in_bounds (34.10494, -117.70980)" by (simp add: in_bounds_def BOUNDING_BOX_def)
  have z: "(34.10494, -117.70980) \<noteq> (0 :: real, 0 :: real)" by simp
  have n: "nat (int_of_float (of_int (people seven_am_event) * conversion_rate_at 420)) = Suc 0"
    by (simp add: seven_am_event_def conversion_rate_at_def CONVERSION_RATE_def int_of_float_def)
  have g: "random_gauss (walk_speed two_minute_args) 1 (\<lambda>n. 0) = (0.8, \<lambda>n. 0)"
    by (simp add: random_gauss_def next_draw_def two_minute_args_def)
  have m: "max (0.8 :: real) 0.2 = 0.8" by simp
  have sp: "spawn_people exact_floats (Suc 0) (34.10494, -117.70980) two_minute_args [Hoch_Shanahan] [] (\<lambda>n. 0)
              = Inr ([spawned], \<lambda>n. 0)"
    unfolding spawn_people_Suc g prod.case m spawned_dest by simp
  have sc: "spawn_course exact_floats seven_am_locations two_minute_args 420 [Hoch_Shanahan] seven_am_event ([], \<lambda>n. 0)
              = Inr ([spawned], \<lambda>n. 0)"
    unfolding spawn_course_def l option.case c sum.case n using b z sp by simp
  have e: "end_times_at [(420, [seven_am_event])] 420 = Some [seven_am_event]"
    by (simp add: end_times_at_def)
  show ?thesis
    unfolding spawn_step_def e option.case for_each.simps sc by simp
qed

lemma seven_am_move: "move_people exact_floats two_minute_args [Hoch_Shanahan] 0 [spawned] (\<lambda>n. 0) = Inr ([walked], \<lambda>n. 0)"
proof -
  have d: "of_int (time_interval two_minute_args) * speed spawned = (96 :: real)"
    by (simp add: two_minute_args_def spawned_def)
  have "move_people exact_floats two_minute_args [Hoch_Shanahan] 0 [spawned] (\<lambda>n. 0)
          = move_people exact_floats two_minute_args [Hoch_Shanahan] (Suc 0) [walked] (\<lambda>n. 0)"
    by (subst move_people.simps) (simp add: d spawned_walks, simp add: spawned_def)
  also have "\<dots> = Inr ([walked], \<lambda>n. 0)"
    by (subst move_people.simps) simp
  finally show ?thesis .
qed

lemma seven_am_enter:
  "enter_dining_halls exact_floats two_minute_args [walked] no_people (\<lambda>n. 0)
     = Inr ([], no_people(Hoch_Shanahan := \<lparr>in_line = [0], eating = []\<rparr>), \<lambda>n. 0)"
proof -
  have a: "arrive exact_floats two_minute_args walked (no_people, \<lambda>n. 0)
             = (no_people(Hoch_Shanahan := \<lparr>in_line = [0], eating = []\<rparr>), \<lambda>n. 0)"
    unfolding arrive_Some [OF walked_arrives]
    by (simp add: no_people_def line_wait_def two_minute_args_def)
  have f: "fold (arrive exact_floats two_minute_args) [walked] (no_people, \<lambda>n. 0)
             = (no_people(Hoch_Shanahan := \<lparr>in_line = [0], eating = []\<rparr>), \<lambda>n. 0)"
    by (simp only: fold_simps o_apply a id_apply)
  have r: "filter (\<lambda>q. first_hall exact_floats q = Inr None) [walked] = []"
    by (simp only: filter.simps walked_arrives sum.inject option.distinct if_False)
  show ?thesis by (simp only: enter_dining_halls_exact f r fst_conv snd_conv)
qed

lemma serve_halls_Cons:
  "serve_halls a d (h # hs) (halls, g) =
     (case serve_hall a d (halls h) g of
        Inl e \<Rightarrow> Inl e
      | Inr (hp, g') \<Rightarrow> serve_halls a d hs (halls(h := hp), g'))"
  by (simp add: serve_halls_def split: sum.splits prod.splits)

lemma serve_halls_others:
  "h \<notin> set hs \<Longrightarrow>
     serve_halls a d hs (no_people(h := hp), g) = Inr (no_people(h := hp), g)"
proof (induction hs)
  case Nil
  show ?case by (simp add: serve_halls_def)
next
  case (Cons x hs)
  then have x: "x \<noteq> h" and r: "h \<notin> set hs" by auto
  have v: "(no_people(h := hp)) x = \<lparr>in_line = [], eating = []\<rparr>"
    using x by (simp add: no_people_def)
  have u: "(no_people(h := hp))(x := \<lparr>in_line = [], eating = []\<rparr>) = no_people(h := hp)"
    using x by (auto simp: fun_eq_iff no_people_def)
  have "serve_halls a d (x # hs) (no_people(h := hp), g) = serve_halls a d hs (no_people(h := hp), g)"
    by (subst serve_halls_Cons) (simp only: v serve_hall_empty sum.case prod.case u)
  also have "\<dots> = Inr (no_people(h := hp), g)" by (rule Cons.IH [OF r])
  finally show ?case .
qed

lemma seven_am_serve:
  "serve_halls two_minute_args 2 DINING_HALLS_keys
       (no_people(Hoch_Shanahan := \<lparr>in_line = [0], eating = []\<rparr>), \<lambda>n. 0)
     = Inr (no_people(Hoch_Shanahan := \<lparr>in_line = [], eating = [58]\<rparr>), \<lambda>n. 0)"
proof -
  have v: "(no_people(Hoch_Shanahan := \<lparr>in_line = [0], eating = []\<rparr>)) Hoch_Shanahan
             = \<lparr>in_line = [0], eating = []\<rparr>" by simp
  have h: "serve_hall two_minute_args 2 \<lparr>in_line = [0], eating = []\<rparr> (\<lambda>n. 0)
             = Inr (\<lparr>in_line = [], eating = [58]\<rparr>, \<lambda>n. 0)"
    by (simp add: serve_hall_eq serve_hall_spec_def fresh_eating_def two_minute_args_def)
  have u: "(no_people(Hoch_Shanahan := \<lparr>in_line = [0], eating = []\<rparr>))
              (Hoch_Shanahan := \<lparr>in_line = [], eating = [58]\<rparr>)
             = no_people(Hoch_Shanahan := \<lparr>in_line = [], eating = [58]\<rparr>)" by simp
  have k: "DINING_HALLS_keys = Hoch_Shanahan # [Malott, Collins, McConnell, Frary, Frank]"
    by (simp add: DINING_HALLS_keys_def)
  have "serve_halls two_minute_args 2 (Hoch_Shanahan # [Malott, Collins, McConnell, Frary, Frank])
           (no_people(Hoch_Shanahan := \<lparr>in_line = [0], eating = []\<rparr>), \<lambda>n. 0)
        = serve_halls two_minute_args 2 [Malott, Collins, McConnell, Frary, Frank]
           (no_people(Hoch_Shanahan := \<lparr>in_line = [], eating = [58]\<rparr>), \<lambda>n. 0)"
    by (subst serve_halls_Cons) (simp only: v h sum.case prod.case u)
  also have "\<dots> = Inr (no_people(Hoch_Shanahan := \<lparr>in_line = [], eating = [58]\<rparr>), \<lambda>n. 0)"
    by (rule serve_halls_others) simp
  finally show ?thesis unfolding k .
qed

lemma quiet_state_fields:
  "end_times (quiet_state n) = [(420, [seven_am_event])]"
  "location_data (quiet_state n) = seven_am_locations"
  "args (quiet_state n) = two_minute_args"
  "current_minute (quiet_state n) = 419 + 2 * of_nat n"
  "current_day (quiet_state n) = Some 0"
  "outside_people (quiet_state n) = []"
  "people_in_dining_halls (quiet_state n) = no_people"
  by (simp_all add: quiet_state_def SimState_def empty_halls_eq)

lemma quiet_state_log: "0 < n \<Longrightarrow> length (sim_log (quiet_state n)) = Suc 0"
  by (simp add: quiet_state_def)

lemma open_at_day_start:
  "filter (\<lambda>h. is_open DAY_START_TIME (DINING_HALLS h)) DINING_HALLS_keys = [Hoch_Shanahan]"
  by (simp add: is_open_def DAY_START_TIME_def DINING_HALLS_keys_def)

lemma seven_am_tick:
  assumes "end_times s = [(420, [seven_am_event])]" and "location_data s = seven_am_locations"
    and "args s = two_minute_args" and "current_minute s = DAY_START_TIME"
    and "current_day s = Some d" and "outside_people s = []"
    and "people_in_dining_halls s = no_people" and "length (sim_log s) = d"
  shows "tick_steps exact_floats s 2 (\<lambda>n. 0)
           = Inr (s\<lparr>outside_people := [],
                    people_in_dining_halls := no_people(Hoch_Shanahan := \<lparr>in_line = [], eating = [58]\<rparr>),
                    sim_log := sim_log s @
                      [[\<lparr>minute = DAY_START_TIME, outside = 0,
                         hall_counts = [(Hoch_Shanahan, 0, 1), (Malott, 0, 0), (Collins, 0, 0),
                                        (McConnell, 0, 0), (Frary, 0, 0), (Frank, 0, 0)]\<rparr>]]\<rparr>,
                  \<lambda>n. 0)"
proof -
  have m: "DAY_START_TIME = 420" by (simp add: DAY_START_TIME_def)
  have sp: "spawn_step exact_floats (end_times s) (location_data s) (args s) (current_minute s)
              (filter (\<lambda>h. is_open (current_minute s) (DINING_HALLS h)) DINING_HALLS_keys)
              (outside_people s) (\<lambda>n. 0) = Inr ([spawned], \<lambda>n. 0)"
    unfolding assms open_at_day_start unfolding m by (rule seven_am_spawn)
  have mv: "move_people exact_floats (args s)
              (filter (\<lambda>h. is_open (current_minute s) (DINING_HALLS h)) DINING_HALLS_keys)
              0 [spawned] (\<lambda>n. 0) = Inr ([walked], \<lambda>n. 0)"
    unfolding assms open_at_day_start by (rule seven_am_move)
  have en: "enter_dining_halls exact_floats (args s) [walked] (people_in_dining_halls s) (\<lambda>n. 0)
              = Inr ([], no_people(Hoch_Shanahan := \<lparr>in_line = [0], eating = []\<rparr>), \<lambda>n. 0)"
    unfolding assms by (rule seven_am_enter)
  have sv: "serve_halls (args s) 2 DINING_HALLS_keys
              (no_people(Hoch_Shanahan := \<lparr>in_line = [0], eating = []\<rparr>), \<lambda>n. 0)
              = Inr (no_people(Hoch_Shanahan := \<lparr>in_line = [], eating = [58]\<rparr>), \<lambda>n. 0)"
    unfolding assms by (rule seven_am_serve)
  have sn: "snapshot (current_minute s) [] (no_people(Hoch_Shanahan := \<lparr>in_line = [], eating = [58]\<rparr>))
              = \<lparr>minute = DAY_START_TIME, outside = 0,
                 hall_counts = [(Hoch_Shanahan, 0, 1), (Malott, 0, 0), (Collins, 0, 0),
                                (McConnell, 0, 0), (Frary, 0, 0), (Frank, 0, 0)]\<rparr>"
    unfolding assms by (simp add: snapshot_def DINING_HALLS_keys_def no_people_def)
  have la: "log_append (sim_log s) d e = Inr (sim_log s @ [[e]])" for e
    using log_append_new [of "sim_log s" e] assms(8) by simp
  show ?thesis
    unfolding tick_steps_def Let_def sp sum.case prod.case mv en sv assms(5) option.case sn la
    by (rule refl)
qed

text \<open>
  Claim C2 as stated fails when a class ends at 07:00. With a two-minute tick the first day
  runs through 450 quiet ticks to minute 1319; the next tick rolls over to minute 420 of the
  second day, where the class spawns one person, who walks 96 meters, arrives at
  Hoch-Shanahan, and is served within the same tick: the snapshot of the rollover tick
  counts one person eating.
\<close>

theorem rollover_with_seven_am_class:
  "build_end_times seven_am_courses = Inr [(420, [seven_am_event])]
   \<and> reachable exact_floats [(420, [seven_am_event])] seven_am_locations two_minute_args 450 (quiet_state 450) (\<lambda>n. 0)
   \<and> current_day (quiet_state 450) = Some 0
   \<and> Suc 0 < length (days two_minute_args)
   \<and> DAY_END_TIME \<le> current_minute (quiet_state 450) + of_int (time_interval two_minute_args) / 60
   \<and> iterate exact_floats (quiet_state 450) (\<lambda>n. 0)
       = Inr (Some True,
              (quiet_state 450)
                \<lparr>current_minute := 420, current_day := Some 1,
                 people_in_dining_halls := no_people(Hoch_Shanahan := \<lparr>in_line = [], eating = [58]\<rparr>),
                 sim_log := sim_log (quiet_state 450) @
                   [[\<lparr>minute = 420, outside = 0,
                      hall_counts = [(Hoch_Shanahan, 0, 1), (Malott, 0, 0), (Collins, 0, 0),
                                     (McConnell, 0, 0), (Frary, 0, 0), (Frank, 0, 0)]\<rparr>]]\<rparr>,
              \<lambda>n. 0)"
proof -
  let ?s = "quiet_state 450"
  let ?s1 = "?s\<lparr>current_minute := DAY_START_TIME, current_day := Some (Suc 0), outside_people := [],
                 people_in_dining_halls := no_people\<rparr>"
  note f = quiet_state_fields [of 450]
  have r: "reachable exact_floats [(420, [seven_am_event])] seven_am_locations two_minute_args 450 ?s (\<lambda>n. 0)"
    by (rule quiet_reachable) simp
  have dl: "Suc 0 < length (days two_minute_args)" by (simp add: two_minute_args_def)
  have cm: "current_minute ?s + of_int (time_interval (args ?s)) / 60 = 1321"
    unfolding f by (simp add: two_minute_args_def)
  have over: "DAY_END_TIME \<le> 1321" by (simp add: DAY_END_TIME_def)
  have dm: "(1321 :: real) - current_minute ?s = 2" unfolding f by simp
  have nd: "get_next_day (?s\<lparr>current_minute := DAY_START_TIME\<rparr>) = Inr ?s1"
    using dl f by (simp add: get_next_day_def empty_halls_eq)
  have lg: "length (sim_log ?s) = Suc 0" by (rule quiet_state_log) simp
  have t: "tick_steps exact_floats ?s1 2 (\<lambda>n. 0)
           = Inr (?s1\<lparr>outside_people := [],
                    people_in_dining_halls := no_people(Hoch_Shanahan := \<lparr>in_line = [], eating = [58]\<rparr>),
                    sim_log := sim_log ?s1 @
                      [[\<lparr>minute = DAY_START_TIME, outside = 0,
                         hall_counts = [(Hoch_Shanahan, 0, 1), (Malott, 0, 0), (Collins, 0, 0),
                                        (McConnell, 0, 0), (Frary, 0, 0), (Frank, 0, 0)]\<rparr>]]\<rparr>,
                  \<lambda>n. 0)"
    by (rule seven_am_tick [where d = "Suc 0"]) (simp_all add: f lg)
  have c1: "current_day ?s1 \<noteq> None" by simp
  have i: "iterate exact_floats ?s (\<lambda>n. 0)
       = Inr (Some True,
              ?s1\<lparr>outside_people := [],
                    people_in_dining_halls := no_people(Hoch_Shanahan := \<lparr>in_line = [], eating = [58]\<rparr>),
                    sim_log := sim_log ?s1 @
                      [[\<lparr>minute = DAY_START_TIME, outside = 0,
                         hall_counts = [(Hoch_Shanahan, 0, 1), (Malott, 0, 0), (Collins, 0, 0),
                                        (McConnell, 0, 0), (Frary, 0, 0), (Frank, 0, 0)]\<rparr>]]\<rparr>,
              \<lambda>n. 0)"
    unfolding iterate_def Let_def cm dm using over nd t c1 by simp
  have e: "?s1\<lparr>outside_people := [],
                    people_in_dining_halls := no_people(Hoch_Shanahan := \<lparr>in_line = [], eating = [58]\<rparr>),
                    sim_log := sim_log ?s1 @
                      [[\<lparr>minute = DAY_START_TIME, outside = 0,
                         hall_counts = [(Hoch_Shanahan, 0, 1), (Malott, 0, 0), (Collins, 0, 0),
                                        (McConnell, 0, 0), (Frary, 0, 0), (Frank, 0, 0)]\<rparr>]]\<rparr>
           = ?s\<lparr>current_minute := 420, current_day := Some 1,
                 people_in_dining_halls := no_people(Hoch_Shanahan := \<lparr>in_line = [], eating = [58]\<rparr>),
                 sim_log := sim_log ?s @
                   [[\<lparr>minute = 420, outside = 0,
                      hall_counts = [(Hoch_Shanahan, 0, 1), (Malott, 0, 0), (Collins, 0, 0),
                                     (McConnell, 0, 0), (Frary, 0, 0), (Frank, 0, 0)]\<rparr>]]\<rparr>"
    using f(6) by (cases "quiet_state 450") (simp add: DAY_START_TIME_def)
  have o: "DAY_END_TIME \<le> current_minute ?s + of_int (time_interval two_minute_args) / 60"
    using cm over f(3) by simp
  show ?thesis
    using seven_am_end_times r f(5) dl o i unfolding e by blast
qed

subsection \<open>Despawning when no hall is open\<close>

lemma move_people_done: "length ps \<le> i \<Longrightarrow> move_people fl a hs i ps g = Inr (ps, g)"
  by (subst move_people.simps) simp

lemma move_people_draw:
  assumes "destination p = None"
  shows "move_people fl a [] (length pre) (pre @ p # rest) g =
           (if g 0 < CONVERSION_RATE
            then move_people fl a [] (Suc (length pre)) (pre @ rest) (\<lambda>n. g (Suc n))
            else move_people fl a [] (Suc (length pre)) (pre @ p # rest) (\<lambda>n. g (Suc n)))"
  using assms
  by (subst move_people.simps) (simp add: random_random_def next_draw_def remove_at_def)

lemma move_people_walk:
  assumes "destination p \<noteq> None"
  shows "move_people fl a hs (length pre) (pre @ p # rest) g =
           (case move_towards_fast fl p (of_int (time_interval a) * speed p) of
              Inl e \<Rightarrow> Inl e
            | Inr p' \<Rightarrow> move_people fl a hs (Suc (length pre)) (pre @ p' # rest) g)"
proof -
  have ne: "(destination p = None) = False" using assms by simp
  have upd: "(pre @ p # rest)[length pre := p'] = pre @ p' # rest" for p'
    by (simp add: list_update_append)
  show ?thesis by (subst move_people.simps) (simp add: ne upd split: sum.splits)
qed

lemma draws_tape:
  "draws fs = map (\<lambda>n. g (Suc n)) [0..<length (draws fs)] \<Longrightarrow>
     g 0 # draws fs = map g [0..<Suc (length (draws fs))]"
proof -
  assume a: "draws fs = map (\<lambda>n. g (Suc n)) [0..<length (draws fs)]"
  have "[0..<Suc m] = 0 # map Suc [0..<m]" for m
    by (simp add: upt_conv_Cons map_Suc_upt del: upt_Suc)
  then have "map g [0..<Suc m] = g 0 # map (\<lambda>n. g (Suc n)) [0..<m]" for m
    by (simp add: o_def del: upt_Suc)
  then show ?thesis using a by simp
qed

lemma fate_fits_Cons:
  "fate_fits fl a ps fs k \<Longrightarrow> fate_fits fl a (p # ps) (f # fs) (Suc k)"
  unfolding fate_fits_def by (cases "fs ! k") auto

lemma fate_fits_shift:
  assumes "\<forall>k<length fs. fate_fits fl a ps fs k" and "fate_fits fl a (p # ps) (f # fs) 0"
  shows "\<forall>k<length (f # fs). fate_fits fl a (p # ps) (f # fs) k"
proof (intro allI impI)
  fix k assume "k < length (f # fs)"
  then show "fate_fits fl a (p # ps) (f # fs) k"
    using assms by (cases k) (auto intro: fate_fits_Cons)
qed

lemma despawn_fates:
  "move_people fl a [] (length pre) (pre @ rest) g = Inr (ps', g') \<Longrightarrow>
     \<exists>fs. length fs = length rest
        \<and> (\<forall>k<length fs. fate_fits fl a rest fs k)
        \<and> draws fs = map g [0..<length (draws fs)]
        \<and> g' = (\<lambda>n. g (n + length (draws fs)))
        \<and> ps' = pre @ concat (map2 outcome rest fs)"
proof (induction "length rest" arbitrary: pre rest g rule: less_induct)
  case less
  show ?case
  proof (cases rest)
    case Nil
    then have "ps' = pre" "g' = g" using less.prems by (simp_all add: move_people_done)
    then show ?thesis using Nil by simp
  next
    case (Cons p rest')
    let ?g = "\<lambda>n. g (Suc n)"
    show ?thesis
    proof (cases "destination p = None")
      case None: True
      show ?thesis
      proof (cases "g 0 < CONVERSION_RATE")
        case removed: True
        have run: "move_people fl a [] (Suc (length pre)) (pre @ rest') ?g = Inr (ps', g')"
          using less.prems Cons move_people_draw [OF None, of fl a pre rest' g] removed by simp
        show ?thesis
        proof (cases rest')
          case Nil
          then have "ps' = pre" "g' = ?g" using run by (simp_all add: move_people_done)
          then have "length [Draw (g 0)] = length rest
              \<and> (\<forall>k<length [Draw (g 0)]. fate_fits fl a rest [Draw (g 0)] k)
              \<and> draws [Draw (g 0)] = map g [0..<length (draws [Draw (g 0)])]
              \<and> g' = (\<lambda>n. g (n + length (draws [Draw (g 0)])))
              \<and> ps' = pre @ concat (map2 outcome rest [Draw (g 0)])"
            using Cons Nil None removed by (simp add: fate_fits_def)
          then show ?thesis by blast
        next
          case inner: (Cons q rest'')
          have run': "move_people fl a [] (length (pre @ [q])) ((pre @ [q]) @ rest'') ?g = Inr (ps', g')"
            using run inner by simp
          have "length rest'' < length rest" using Cons inner by simp
          from less.hyps [OF this run'] obtain fs where
            fs: "length fs = length rest''"
              "\<forall>k<length fs. fate_fits fl a rest'' fs k"
              "draws fs = map ?g [0..<length (draws fs)]"
              "g' = (\<lambda>n. ?g (n + length (draws fs)))"
              "ps' = (pre @ [q]) @ concat (map2 outcome rest'' fs)"
            by blast
          let ?fs = "Draw (g 0) # Pass # fs"
          have f1: "\<forall>k<length (Pass # fs). fate_fits fl a (q # rest'') (Pass # fs) k
                     \<or> (k = 0)"
            using fs(2) by (auto intro: fate_fits_Cons simp: less_Suc_eq_0_disj)
          have fit: "fate_fits fl a rest ?fs k" if k: "k < length ?fs" for k
          proof (cases k)
            case 0
            then show ?thesis using Cons None by (simp add: fate_fits_def)
          next
            case (Suc k1)
            show ?thesis
            proof (cases k1)
              case 0
              then show ?thesis using Suc removed by (auto simp: fate_fits_def)
            next
              case (Suc k2)
              then have "k2 < length fs" using k \<open>k = Suc k1\<close> by simp
              then have "fate_fits fl a rest'' fs k2" using fs(2) by simp
              then have "fate_fits fl a (p # q # rest'') ?fs (Suc (Suc k2))"
                by (intro fate_fits_Cons)
              then show ?thesis using Cons inner Suc \<open>k = Suc k1\<close> by simp
            qed
          qed
          have "length ?fs = length rest" using fs(1) Cons inner by simp
          moreover have "\<forall>k<length ?fs. fate_fits fl a rest ?fs k" using fit by blast
          moreover have "draws ?fs = map g [0..<length (draws ?fs)]"
            using draws_tape [OF fs(3)] by simp
          moreover have "g' = (\<lambda>n. g (n + length (draws ?fs)))"
            using fs(4) by simp
          moreover have "ps' = pre @ concat (map2 outcome rest ?fs)"
            using fs(5) Cons inner removed by simp
          ultimately show ?thesis by blast
        qed
      next
        case kept: False
        have run: "move_people fl a [] (length (pre @ [p])) ((pre @ [p]) @ rest') ?g = Inr (ps', g')"
          using less.prems Cons move_people_draw [OF None, of fl a pre rest' g] kept by simp
        have "length rest' < length rest" using Cons by simp
        from less.hyps [OF this run] obtain fs where
          fs: "length fs = length rest'"
            "\<forall>k<length fs. fate_fits fl a rest' fs k"
            "draws fs = map ?g [0..<length (draws fs)]"
            "g' = (\<lambda>n. ?g (n + length (draws fs)))"
            "ps' = (pre @ [p]) @ concat (map2 outcome rest' fs)"
          by blast
        let ?fs = "Draw (g 0) # fs"
        have "fate_fits fl a (p # rest') ?fs 0" using None by (simp add: fate_fits_def)
        from fate_fits_shift [OF fs(2) this]
        have "\<forall>k<length ?fs. fate_fits fl a rest ?fs k" using Cons by simp
        moreover have "length ?fs = length rest" using fs(1) Cons by simp
        moreover have "draws ?fs = map g [0..<length (draws ?fs)]"
          using draws_tape [OF fs(3)] by simp
        moreover have "g' = (\<lambda>n. g (n + length (draws ?fs)))"
          using fs(4) by simp
        moreover have "ps' = pre @ concat (map2 outcome rest ?fs)"
          using fs(5) Cons kept by simp
        ultimately show ?thesis by blast
      qed
    next
      case walker: False
      obtain p' where mv: "move_towards_fast fl p (of_int (time_interval a) * speed p) = Inr p'"
        and run: "move_people fl a [] (length (pre @ [p'])) ((pre @ [p']) @ rest') g = Inr (ps', g')"
        using less.prems Cons move_people_walk [OF walker, of fl a "[]" pre rest' g]
        by (auto split: sum.splits)
      have "length rest' < length rest" using Cons by simp
      from less.hyps [OF this run] obtain fs where
        fs: "length fs = length rest'"
          "\<forall>k<length fs. fate_fits fl a rest' fs k"
          "draws fs = map g [0..<length (draws fs)]"
          "g' = (\<lambda>n. g (n + length (draws fs)))"
          "ps' = (pre @ [p']) @ concat (map2 outcome rest' fs)"
        by blast
      let ?fs = "Walk p' # fs"
      have "fate_fits fl a (p # rest') ?fs 0" using walker mv by (simp add: fate_fits_def)
      from fate_fits_shift [OF fs(2) this]
      have "\<forall>k<length ?fs. fate_fits fl a rest ?fs k" using Cons by simp
      moreover have "length ?fs = length rest" using fs(1) Cons by simp
      moreover have "draws ?fs = map g [0..<length (draws ?fs)]" using fs(3) by simp
      moreover have "g' = (\<lambda>n. g (n + length (draws ?fs)))" using fs(4) by simp
      moreover have "ps' = pre @ concat (map2 outcome rest ?fs)" using fs(5) Cons by simp
      ultimately show ?thesis by blast
    qed
  qed
qed

text \<open>
  Claim C3, as amended. In the movement step of a tick with no open hall, whenever the step
  returns: a person without a destination is removed only by a uniform draw of its own that
  is below \<open>CONVERSION_RATE\<close>, the default rate 2/5, and every such draw removes its person
  (the step has no minute among its inputs: the dinner rate is never used here); the draws
  are taken from the generator in list order and nobody receives two; a person with a
  destination receives no draw and walks on. Until a draw has removed somebody, nobody is
  left out: every person without a destination has received its draw.
\<close>

theorem despawn_uses_default_rate:
  assumes "move_people fl a [] 0 ps g = Inr (ps', g')"
  shows "\<exists>fs. length fs = length ps
           \<and> (\<forall>i<length fs. fate_fits fl a ps fs i)
           \<and> draws fs = map g [0..<length (draws fs)]
           \<and> g' = (\<lambda>n. g (n + length (draws fs)))
           \<and> ps' = concat (map2 outcome ps fs)"
  using despawn_fates [of fl a "[]" ps g ps' g'] assms by simp

text \<open>
  Claim C3 as stated fails after 17:00: at 20:00 no hall is open and the rate of the tick is
  the dinner rate 1/2, yet a person whose draw is 9/20 is kept, because the draw is compared
  with the default rate 2/5.
\<close>

theorem despawn_ignores_dinner_rate:
  "filter (\<lambda>h. is_open 1200 (DINING_HALLS h)) DINING_HALLS_keys = []
   \<and> conversion_rate_at 1200 = DINNER_CONVERSION_RATE
   \<and> destination (Person (34.1, -117.71) 0.8) = None
   \<and> fst (random_random (\<lambda>n. 9 / 20)) < conversion_rate_at 1200
   \<and> move_people exact_floats
        \<lparr>days = ''MTWRF'', time_interval = 60, eating_time = 3600, line_time = 30, walk_speed = 0.8\<rparr>
        [] 0 [Person (34.1, -117.71) 0.8] (\<lambda>n. 9 / 20)
      = Inr ([Person (34.1, -117.71) 0.8], \<lambda>n. 9 / 20)"
proof -
  let ?a = "\<lparr>days = ''MTWRF'', time_interval = 60, eating_time = 3600, line_time = 30, walk_speed = 0.8\<rparr>"
  let ?p = "Person (34.1, -117.71) 0.8"
  have c: "filter (\<lambda>h. is_open 1200 (DINING_HALLS h)) DINING_HALLS_keys = []"
    by (simp add: is_open_def DINING_HALLS_keys_def)
  have r: "conversion_rate_at 1200 = DINNER_CONVERSION_RATE" by (simp add: conversion_rate_at_def)
  have d: "destination ?p = None" by (simp add: Person_def)
  have u: "fst (random_random (\<lambda>n. 9 / 20)) < conversion_rate_at 1200"
    by (simp add: r random_random_def next_draw_def DINNER_CONVERSION_RATE_def)
  have k: "\<not> (\<lambda>n::nat. 9 / 20 :: real) 0 < CONVERSION_RATE" by (simp add: CONVERSION_RATE_def)
  have "move_people exact_floats ?a [] (length ([] :: person list)) ([] @ ?p # []) (\<lambda>n. 9 / 20)
          = move_people exact_floats ?a [] (Suc (length ([] :: person list))) ([] @ ?p # []) (\<lambda>n. 9 / 20)"
    using move_people_draw [OF d, of exact_floats ?a "[]" "[]" "\<lambda>n. 9 / 20"] k by simp
  also have "\<dots> = Inr ([] @ ?p # [], \<lambda>n. 9 / 20)"
    by (rule move_people_done) simp
  finally have m: "move_people exact_floats ?a [] 0 [?p] (\<lambda>n. 9 / 20) = Inr ([?p], \<lambda>n. 9 / 20)"
    by simp
  from c r d u m show ?thesis by blast
qed

text \<open>
  Removing from the list under the iterator makes the scan pass over the successor of a
  removed person: here the first person is removed and the second never receives a draw,
  though its draw would have removed it as well.
\<close>

lemma despawn_skips_successor:
  "move_people fl
        \<lparr>days = ''MTWRF'', time_interval = 60, eating_time = 3600, line_time = 30, walk_speed = 0.8\<rparr>
        [] 0 [Person (34.1, -117.71) 0.8, Person (34.1, -117.71) 1.2] (\<lambda>n. 0)
      = Inr ([Person (34.1, -117.71) 1.2], \<lambda>n. 0)"
proof -
  let ?a = "\<lparr>days = ''MTWRF'', time_interval = 60, eating_time = 3600, line_time = 30, walk_speed = 0.8\<rparr>"
  let ?p = "Person (34.1, -117.71) 0.8" and ?q = "Person (34.1, -117.71) 1.2"
  have d: "destination ?p = None" by (simp add: Person_def)
  have k: "(\<lambda>n::nat. 0 :: real) 0 < CONVERSION_RATE" by (simp add: CONVERSION_RATE_def)
  have "move_people fl ?a [] (length ([] :: person list)) ([] @ ?p # [?q]) (\<lambda>n. 0)
          = move_people fl ?a [] (Suc (length ([] :: person list))) ([] @ [?q]) (\<lambda>n. 0)"
    using move_people_draw [OF d, of fl ?a "[]" "[?q]" "\<lambda>n. 0"] k by simp
  also have "\<dots> = Inr ([] @ [?q], \<lambda>n. 0)"
    by (rule move_people_done) simp
  finally show ?thesis by simp
qed
subsection \<open>A mixed list of outside people\<close>

text \<open>Three people outside with no hall open: the first is kept by a draw of 1/2, the
  second has a destination and walks, the third is removed by a draw of 1/10.\<close>

theorem despawn_uses_default_rate_witness:
  "move_people exact_floats two_minute_args [] 0
      [Person (34.1, -117.71) 0.8, spawned, Person (34.1, -117.71) 1.2]
      (\<lambda>n. if n = 0 then 1 / 2 else 1 / 10)
     = Inr ([Person (34.1, -117.71) 0.8, walked], \<lambda>n. 1 / 10)
   \<and> (\<exists>fs. length fs = length [Person (34.1, -117.71) 0.8, spawned, Person (34.1, -117.71) 1.2]
         \<and> (\<forall>i<length fs. fate_fits exact_floats two_minute_args
                             [Person (34.1, -117.71) 0.8, spawned, Person (34.1, -117.71) 1.2] fs i)
         \<and> draws fs = map (\<lambda>n. if n = 0 then 1 / 2 else 1 / 10) [0..<length (draws fs)]
         \<and> (\<lambda>n. 1 / 10) = (\<lambda>n. (if n + length (draws fs) = 0 then 1 / 2 else 1 / 10 :: real))
         \<and> [Person (34.1, -117.71) 0.8, walked]
             = concat (map2 outcome [Person (34.1, -117.71) 0.8, spawned, Person (34.1, -117.71) 1.2] fs))"
proof -
  define A where "A = Person (34.1, -117.71) 0.8"
  define B where "B = Person (34.1, -117.71) 1.2"
  let ?g = "\<lambda>n::nat. if n = 0 then 1 / 2 else 1 / 10 :: real"
  let ?h = "\<lambda>n::nat. 1 / 10 :: real"
  have dA: "destination A = None" and dB: "destination B = None"
    by (simp_all add: A_def B_def Person_def)
  have dS: "destination spawned \<noteq> None" by (simp add: spawned_def)
  have k0: "\<not> ?g 0 < CONVERSION_RATE" by (simp add: CONVERSION_RATE_def)
  have k1: "?h 0 < CONVERSION_RATE" by (simp add: CONVERSION_RATE_def)
  have gh: "(\<lambda>n. ?g (Suc n)) = ?h" by simp
  have m: "of_int (time_interval two_minute_args) * speed spawned = (96 :: real)"
    by (simp add: two_minute_args_def spawned_def)
  have "move_people exact_floats two_minute_args [] (length ([] :: person list)) ([] @ A # [spawned, B]) ?g
          = move_people exact_floats two_minute_args [] (Suc (length ([] :: person list)))
              ([] @ A # [spawned, B]) (\<lambda>n. ?g (Suc n))"
    using move_people_draw [OF dA, of exact_floats two_minute_args "[]" "[spawned, B]" ?g] k0
    by (simp only: if_False)
  then have s0: "move_people exact_floats two_minute_args [] 0 [A, spawned, B] ?g
          = move_people exact_floats two_minute_args [] (length [A]) ([A] @ spawned # [B]) ?h"
    unfolding gh by simp
  have s1: "move_people exact_floats two_minute_args [] (length [A]) ([A] @ spawned # [B]) ?h
          = move_people exact_floats two_minute_args [] (Suc (length [A])) ([A] @ walked # [B]) ?h"
    unfolding move_people_walk [OF dS] m spawned_walks by simp
  have "move_people exact_floats two_minute_args [] (length [A, walked]) ([A, walked] @ B # []) ?h
          = move_people exact_floats two_minute_args [] (Suc (length [A, walked])) ([A, walked] @ [])
              (\<lambda>n. ?h (Suc n))"
    using move_people_draw [OF dB, of exact_floats two_minute_args "[A, walked]" "[]" ?h] k1
    by (simp only: if_True)
  then have s2: "move_people exact_floats two_minute_args [] (Suc (length [A])) ([A] @ walked # [B]) ?h
          = move_people exact_floats two_minute_args [] 3 [A, walked] ?h"
    by (simp add: numeral_3_eq_3)
  have s3: "move_people exact_floats two_minute_args [] 3 [A, walked] ?h = Inr ([A, walked], ?h)"
    by (rule move_people_done) simp
  have e: "move_people exact_floats two_minute_args [] 0 [A, spawned, B] ?g = Inr ([A, walked], ?h)"
    unfolding s0 s1 s2 s3 ..
  from despawn_uses_default_rate [OF e] e show ?thesis
    unfolding A_def B_def by blast
qed

subsection \<open>A class that ends at the end of the day\<close>

lemma late_spawn:
  "spawn_step exact_floats [(1319, [late_event])] late_locations long_tick_args 1319 [] [] (\<lambda>n. 1 / 2)
     = Inr ([Person (34.10574, -117.70980) 1.3], \<lambda>n. 1 / 2)"
proof -
  have l: "late_locations (location_string late_event) = Some [''34.10574'', ''-117.70980'']"
    by (simp add: late_locations_def late_event_def)
  have c: "convert_str_to_loc [''34.10574'', ''-117.70980''] = Inr (34.10574, -117.70980)"
    by code_simp
  have b: "in_bounds (34.10574, -117.70980)" by (simp add: in_bounds_def BOUNDING_BOX_def)
  have z: "(34.10574, -117.70980) \<noteq> (0 :: real, 0 :: real)" by simp
  have n: "nat (int_of_float (of_int (people late_event) * conversion_rate_at 1319)) = Suc 0"
    by (simp add: late_event_def conversion_rate_at_def DINNER_CONVERSION_RATE_def int_of_float_def)
  have g: "random_gauss (walk_speed long_tick_args) 1 (\<lambda>n. 1 / 2) = (1.3, \<lambda>n. 1 / 2)"
    by (simp add: random_gauss_def next_draw_def long_tick_args_def)
  have m: "max (1.3 :: real) 0.2 = 1.3" by simp
  have sp: "spawn_people exact_floats (Suc 0) (34.10574, -117.70980) long_tick_args [] [] (\<lambda>n. 1 / 2)
              = Inr ([Person (34.10574, -117.70980) 1.3], \<lambda>n. 1 / 2)"
    unfolding spawn_people_Suc g prod.case m by simp
  have sc: "spawn_course exact_floats late_locations long_tick_args 1319 [] late_event ([], \<lambda>n. 1 / 2)
              = Inr ([Person (34.10574, -117.70980) 1.3], \<lambda>n. 1 / 2)"
    unfolding spawn_course_def l option.case c sum.case n using b z sp by simp
  have e: "end_times_at [(1319, [late_event])] 1319 = Some [late_event]"
    by (simp add: end_times_at_def)
  show ?thesis
    unfolding spawn_step_def e option.case for_each.simps sc by simp
qed

lemma late_move:
  "move_people exact_floats long_tick_args [] 0 [Person (34.10574, -117.70980) 1.3] (\<lambda>n. 1 / 2)
     = Inr ([Person (34.10574, -117.70980) 1.3], \<lambda>n. 1 / 2)"
proof -
  define P where "P = Person (34.10574, -117.70980) 1.3"
  have d: "destination P = None" by (simp add: P_def Person_def)
  have k: "\<not> (\<lambda>n::nat. 1 / 2 :: real) 0 < CONVERSION_RATE" by (simp add: CONVERSION_RATE_def)
  have "move_people exact_floats long_tick_args [] (length ([] :: person list)) ([] @ P # []) (\<lambda>n. 1 / 2)
          = move_people exact_floats long_tick_args [] (Suc (length ([] :: person list))) ([] @ P # [])
              (\<lambda>n. 1 / 2)"
    using move_people_draw [OF d, of exact_floats long_tick_args "[]" "[]" "\<lambda>n. 1 / 2"] k
    by (simp only: if_False)
  also have "\<dots> = Inr ([] @ P # [], \<lambda>n. 1 / 2)"
    by (rule move_people_done) simp
  finally show ?thesis unfolding P_def by simp
qed

lemma late_enter:
  "enter_dining_halls exact_floats long_tick_args [Person (34.10574, -117.70980) 1.3] no_people
       (\<lambda>n. 1 / 2)
     = Inr ([], no_people(Hoch_Shanahan := \<lparr>in_line = [1 / 12], eating = []\<rparr>), \<lambda>n. 1 / 2)"
proof -
  define P where "P = Person (34.10574, -117.70980) 1.3"
  have h: "first_hall exact_floats P = Inr (Some Hoch_Shanahan)"
    by (rule at_Hoch_Shanahan) (simp add: P_def Person_def)
  have a: "arrive exact_floats long_tick_args P (no_people, \<lambda>n. 1 / 2)
             = (no_people(Hoch_Shanahan := \<lparr>in_line = [1 / 12], eating = []\<rparr>), \<lambda>n. 1 / 2)"
    unfolding arrive_Some [OF h]
    by (simp add: no_people_def line_wait_def long_tick_args_def)
  have f: "fold (arrive exact_floats long_tick_args) [P] (no_people, \<lambda>n. 1 / 2)
             = (no_people(Hoch_Shanahan := \<lparr>in_line = [1 / 12], eating = []\<rparr>), \<lambda>n. 1 / 2)"
    by (simp only: fold_simps o_apply a id_apply)
  have r: "filter (\<lambda>q. first_hall exact_floats q = Inr None) [P] = []"
    by (simp only: filter.simps h sum.inject option.distinct if_False)
  have "enter_dining_halls exact_floats long_tick_args [P] no_people (\<lambda>n. 1 / 2)
     = Inr ([], no_people(Hoch_Shanahan := \<lparr>in_line = [1 / 12], eating = []\<rparr>), \<lambda>n. 1 / 2)"
    by (simp only: enter_dining_halls_exact f r fst_conv snd_conv)
  then show ?thesis unfolding P_def .
qed

lemma late_serve:
  "serve_halls long_tick_args 900 DINING_HALLS_keys
       (no_people(Hoch_Shanahan := \<lparr>in_line = [1 / 12], eating = []\<rparr>), \<lambda>n. 1 / 2)
     = Inr (no_people(Hoch_Shanahan := \<lparr>in_line = [], eating = [177350 / 3]\<rparr>), \<lambda>n. 1 / 2)"
proof -
  have v: "(no_people(Hoch_Shanahan := \<lparr>in_line = [1 / 12], eating = []\<rparr>)) Hoch_Shanahan
             = \<lparr>in_line = [1 / 12], eating = []\<rparr>" by simp
  have h: "serve_hall long_tick_args 900 \<lparr>in_line = [1 / 12], eating = []\<rparr> (\<lambda>n. 1 / 2)
             = Inr (\<lparr>in_line = [], eating = [177350 / 3]\<rparr>, \<lambda>n. 1 / 2)"
    by (simp add: serve_hall_eq serve_hall_spec_def fresh_eating_def long_tick_args_def)
  have u: "(no_people(Hoch_Shanahan := \<lparr>in_line = [1 / 12], eating = []\<rparr>))
              (Hoch_Shanahan := \<lparr>in_line = [], eating = [177350 / 3]\<rparr>)
             = no_people(Hoch_Shanahan := \<lparr>in_line = [], eating = [177350 / 3]\<rparr>)" by simp
  have k: "DINING_HALLS_keys = Hoch_Shanahan # [Malott, Collins, McConnell, Frary, Frank]"
    by (simp add: DINING_HALLS_keys_def)
  have "serve_halls long_tick_args 900 (Hoch_Shanahan # [Malott, Collins, McConnell, Frary, Frank])
           (no_people(Hoch_Shanahan := \<lparr>in_line = [1 / 12], eating = []\<rparr>), \<lambda>n. 1 / 2)
        = serve_halls long_tick_args 900 [Malott, Collins, McConnell, Frary, Frank]
           (no_people(Hoch_Shanahan := \<lparr>in_line = [], eating = [177350 / 3]\<rparr>), \<lambda>n. 1 / 2)"
    by (subst serve_halls_Cons) (simp only: v h sum.case prod.case u)
  also have "\<dots> = Inr (no_people(Hoch_Shanahan := \<lparr>in_line = [], eating = [177350 / 3]\<rparr>), \<lambda>n. 1 / 2)"
    by (rule serve_halls_others) simp
  finally show ?thesis unfolding k .
qed

lemma late_tick:
  "iterate exact_floats (SimState [(1319, [late_event])] late_locations long_tick_args) (\<lambda>n. 1 / 2)
     = Inr (Some True, late_state, \<lambda>n. 1 / 2)"
proof -
  let ?init = "SimState [(1319, [late_event])] late_locations long_tick_args"
  let ?s = "?init\<lparr>current_minute := 1319\<rparr>"
  have cm: "current_minute ?init + of_int (time_interval (args ?init)) / 60 = 1319"
    by (simp add: SimState_def long_tick_args_def DAY_START_TIME_def)
  have dm: "(1319 :: real) - current_minute ?init = 900"
    by (simp add: SimState_def DAY_START_TIME_def)
  have early: "\<not> DAY_END_TIME \<le> 1319" by (simp add: DAY_END_TIME_def)
  have f: "end_times ?s = [(1319, [late_event])]" "location_data ?s = late_locations"
    "args ?s = long_tick_args" "current_minute ?s = 1319" "current_day ?s = Some 0"
    "outside_people ?s = []" "people_in_dining_halls ?s = no_people" "sim_log ?s = []"
    by (simp_all add: SimState_def empty_halls_eq)
  have op: "filter (\<lambda>h. is_open 1319 (DINING_HALLS h)) DINING_HALLS_keys = []"
    by (simp add: is_open_def DINING_HALLS_keys_def)
  have sn: "snapshot 1319 [] (no_people(Hoch_Shanahan := \<lparr>in_line = [], eating = [177350 / 3]\<rparr>))
              = \<lparr>minute = 1319, outside = 0,
                 hall_counts = [(Hoch_Shanahan, 0, 1), (Malott, 0, 0), (Collins, 0, 0),
                                (McConnell, 0, 0), (Frary, 0, 0), (Frank, 0, 0)]\<rparr>"
    by (simp add: snapshot_def DINING_HALLS_keys_def no_people_def)
  have la: "log_append [] 0 e = Inr [[e]]" for e :: log_entry
    by (simp add: log_append_def)
  have t: "tick_steps exact_floats ?s 900 (\<lambda>n. 1 / 2)
             = Inr (?s\<lparr>outside_people := [],
                      people_in_dining_halls := no_people(Hoch_Shanahan := \<lparr>in_line = [], eating = [177350 / 3]\<rparr>),
                      sim_log := [[\<lparr>minute = 1319, outside = 0,
                         hall_counts = [(Hoch_Shanahan, 0, 1), (Malott, 0, 0), (Collins, 0, 0),
                                        (McConnell, 0, 0), (Frary, 0, 0), (Frank, 0, 0)]\<rparr>]]\<rparr>,
                    \<lambda>n. 1 / 2)"
    unfolding tick_steps_def Let_def f op late_spawn sum.case prod.case late_move late_enter
      late_serve option.case sn la
    by (rule refl)
  have e: "?s\<lparr>outside_people := [],
              people_in_dining_halls := no_people(Hoch_Shanahan := \<lparr>in_line = [], eating = [177350 / 3]\<rparr>),
              sim_log := [[\<lparr>minute = 1319, outside = 0,
                 hall_counts = [(Hoch_Shanahan, 0, 1), (Malott, 0, 0), (Collins, 0, 0),
                                (McConnell, 0, 0), (Frary, 0, 0), (Frank, 0, 0)]\<rparr>]]\<rparr>
           = late_state"
    by (simp add: late_state_def SimState_def)
  show ?thesis
    unfolding iterate_def Let_def cm dm using early t e by simp
qed

text \<open>
  The second tick of that run ends the first day with one person eating at Hoch-Shanahan;
  no class ends at 07:00, so the rollover clears the state and its snapshot counts nobody.
\<close>

theorem day_rollover_witness:
  "reachable exact_floats [(1319, [late_event])] late_locations long_tick_args (Suc 0) late_state
     (\<lambda>n. 1 / 2)
   \<and> DAY_END_TIME \<le> current_minute late_state + of_int (time_interval long_tick_args) / 60
   \<and> current_day late_state = Some 0
   \<and> Suc 0 < length (days long_tick_args)
   \<and> eating (people_in_dining_halls late_state Hoch_Shanahan) = [177350 / 3]
   \<and> spawn_step exact_floats [(1319, [late_event])] late_locations long_tick_args DAY_START_TIME
        (filter (\<lambda>h. is_open DAY_START_TIME (DINING_HALLS h)) DINING_HALLS_keys) [] (\<lambda>n. 1 / 2)
      = Inr ([], \<lambda>n. 1 / 2)
   \<and> (\<exists>s'. iterate exact_floats late_state (\<lambda>n. 1 / 2) = Inr (Some True, s', \<lambda>n. 1 / 2)
         \<and> current_day s' = Some (Suc 0) \<and> current_minute s' = DAY_START_TIME
         \<and> outside_people s' = [] \<and> people_in_dining_halls s' = no_people
         \<and> sim_log s' = sim_log late_state @ [[\<lparr>minute = DAY_START_TIME, outside = 0,
               hall_counts = map (\<lambda>h. (h, 0, 0)) DINING_HALLS_keys\<rparr>]])"
proof -
  let ?et = "[(1319, [late_event])]"
  let ?g = "\<lambda>n::nat. 1 / 2 :: real"
  have r0: "reachable exact_floats ?et late_locations long_tick_args 0
              (SimState ?et late_locations long_tick_args) ?g"
    by (rule reachable.initial)
  have r1: "reachable exact_floats ?et late_locations long_tick_args (Suc 0) late_state ?g"
    by (rule reachable.tick [OF r0 late_tick])
  have h2: "DAY_END_TIME \<le> current_minute late_state + of_int (time_interval long_tick_args) / 60"
    by (simp add: late_state_def long_tick_args_def DAY_END_TIME_def)
  have h3: "current_day late_state = Some 0" by (simp add: late_state_def SimState_def)
  have h4: "Suc 0 < length (days long_tick_args)" by (simp add: long_tick_args_def)
  have ea: "eating (people_in_dining_halls late_state Hoch_Shanahan) = [177350 / 3]"
    by (simp add: late_state_def)
  have h5: "spawn_step exact_floats ?et late_locations long_tick_args DAY_START_TIME
              (filter (\<lambda>h. is_open DAY_START_TIME (DINING_HALLS h)) DINING_HALLS_keys) [] ?g
            = Inr ([], ?g)"
    by (simp add: spawn_step_def end_times_at_def DAY_START_TIME_def)
  note t = day_rollover [OF r1 h2 h3 h4]
  from t [THEN conjunct2, rule_format, OF h5] obtain s' where
    i: "iterate exact_floats late_state ?g = Inr (Some True, s', ?g)"
    and o: "outside_people s' = []" "people_in_dining_halls s' = no_people"
    and lg: "sim_log s' = sim_log late_state @ [[\<lparr>minute = DAY_START_TIME, outside = 0,
               hall_counts = map (\<lambda>h. (h, 0, 0)) DINING_HALLS_keys\<rparr>]]"
    by blast
  from t [THEN conjunct1, rule_format, OF i]
  have c: "current_day s' = Some (Suc 0)" "current_minute s' = DAY_START_TIME" by simp_all
  from r1 h2 h3 h4 ea h5 i c o lg show ?thesis by blast
qed
subsection \<open>The schedule index and the simulated weekday\<close>

text \<open>
  Claim C1 fails on the code. \<open>build_end_times\<close> folds the buckets of all weekdays into one
  dict keyed by the minute alone, and nothing in \<open>spawn_step\<close> reads the simulated day: a
  class that meets on Tuesdays only spawns its people in a simulation of Monday alone
  (\<^verbatim>\<open>--days M\<close>), here 9 of 24 at 15:00.
\<close>

theorem tuesday_class_spawns_on_monday:
  "build_end_times
     [\<lparr>seats_taken = 24,
       course_timing = [\<lparr>timing_days = [''Tuesday''], start_time = ''13:45:00'', end_time = ''15:00:00'',
                          timing_location = \<lparr>school = ''Pitzer'', building = ''Lincoln'', room = ''1135''\<rparr>\<rparr>]\<rparr>]
     = Inr [(900, [\<lparr>event_timing = \<lparr>timing_days = [''Tuesday''], start_time = ''13:45:00'',
                                        end_time = ''15:00:00'',
                                        timing_location = \<lparr>school = ''Pitzer'', building = ''Lincoln'',
                                                             room = ''1135''\<rparr>\<rparr>,
                     location_string = ''Pitzer-Lincoln'', people = 24\<rparr>])]
   \<and> spawn_step exact_floats
        [(900, [\<lparr>event_timing = \<lparr>timing_days = [''Tuesday''], start_time = ''13:45:00'',
                                    end_time = ''15:00:00'',
                                    timing_location = \<lparr>school = ''Pitzer'', building = ''Lincoln'',
                                                         room = ''1135''\<rparr>\<rparr>,
                  location_string = ''Pitzer-Lincoln'', people = 24\<rparr>])]
        [''Pitzer-Lincoln'' \<mapsto> [''34.1'', ''-117.71'']]
        \<lparr>days = ''M'', time_interval = 60, eating_time = 3600, line_time = 30, walk_speed = 0.8\<rparr>
        900 (filter (\<lambda>h. is_open 900 (DINING_HALLS h)) DINING_HALLS_keys) [] (\<lambda>n. 0)
      = Inr (replicate 9 (Person (34.1, -117.71) 0.8), \<lambda>n. 0)"
proof -
  let ?t = "\<lparr>timing_days = [''Tuesday''], start_time = ''13:45:00'', end_time = ''15:00:00'',
             timing_location = \<lparr>school = ''Pitzer'', building = ''Lincoln'', room = ''1135''\<rparr>\<rparr>"
  let ?ev = "\<lparr>event_timing = ?t, location_string = ''Pitzer-Lincoln'', people = 24\<rparr>"
  let ?ld = "[''Pitzer-Lincoln'' \<mapsto> [''34.1'', ''-117.71'']]"
  let ?a = "\<lparr>days = ''M'', time_interval = 60, eating_time = 3600, line_time = 30, walk_speed = 0.8\<rparr>"
  have b: "build_end_times [\<lparr>seats_taken = 24, course_timing = [?t]\<rparr>] = Inr [(900, [?ev])]"
    by code_simp
  have o: "filter (\<lambda>h. is_open 900 (DINING_HALLS h)) DINING_HALLS_keys = []"
    by (simp add: is_open_def DINING_HALLS_keys_def)
  have h1: "?ld (location_string ?ev) = Some [''34.1'', ''-117.71'']" by simp
  have h2: "convert_str_to_loc [''34.1'', ''-117.71''] = Inr (34.1, -117.71)" by code_simp
  have h3: "(34.1, -117.71) \<noteq> (0 :: real, 0 :: real)" by simp
  have h4: "in_bounds (34.1, -117.71)" by (simp add: in_bounds_def BOUNDING_BOX_def)
  have n: "nat (int_of_float (of_int (people ?ev) * conversion_rate_at 900)) = 9"
    by (simp add: int_of_float_def conversion_rate_at_def CONVERSION_RATE_def)
  have sp: "spawn_people exact_floats 9 (34.1, -117.71) ?a [] [] (\<lambda>n. 0)
              = Inr (replicate 9 (Person (34.1, -117.71) 0.8), \<lambda>n. 0)"
    by (simp add: eval_nat_numeral random_gauss_def next_draw_def)
  have sc: "spawn_course exact_floats ?ld ?a 900 [] ?ev ([], \<lambda>n. 0)
              = Inr (replicate 9 (Person (34.1, -117.71) 0.8), \<lambda>n. 0)"
    unfolding spawn_course_def h1 option.case h2 sum.case
    using h3 h4 n sp by simp
  have e: "end_times_at [(900, [?ev])] 900 = Some [?ev]" by (simp add: end_times_at_def)
  have s: "spawn_step exact_floats [(900, [?ev])] ?ld ?a 900 [] [] (\<lambda>n. 0)
             = Inr (replicate 9 (Person (34.1, -117.71) 0.8), \<lambda>n. 0)"
    unfolding spawn_step_def e option.case for_each.simps sc by simp
  show ?thesis using b s unfolding o by blast
qed


end
